theory Spec2Isabelle
  imports Main "HOL-Library.Sublist"
begin

section \<open>Configuration constants\<close>

text \<open>
  Modelled from the spec: the configuration constants. The source takes them from
  headers that are not under src/. The spec fixes three independent constants,
  OFFSET_WIDTH, TABLES_DEPTH and NUM_FRAMES, and derives
  PAGE_SIZE = 2^OFFSET_WIDTH, NUM_PAGES = 2^(TABLES_DEPTH * OFFSET_WIDTH) and
  VIRTUAL_MEMORY_SIZE = 2^((TABLES_DEPTH + 1) * OFFSET_WIDTH).
\<close>

record config =
  OFFSET_WIDTH :: nat
  TABLES_DEPTH :: nat
  NUM_FRAMES :: nat

definition PAGE_SIZE :: "config \<Rightarrow> nat" where
  "PAGE_SIZE c = 2 ^ OFFSET_WIDTH c"

definition NUM_PAGES :: "config \<Rightarrow> nat" where
  "NUM_PAGES c = 2 ^ (TABLES_DEPTH c * OFFSET_WIDTH c)"

definition VIRTUAL_MEMORY_SIZE :: "config \<Rightarrow> nat" where
  "VIRTUAL_MEMORY_SIZE c = 2 ^ ((TABLES_DEPTH c + 1) * OFFSET_WIDTH c)"

text \<open>The source's own constant: the width of uint64_t.\<close>

definition TOTAL_BITS_NUM :: nat where
  "TOTAL_BITS_NUM = 64"

text \<open>
  A configuration is consistent when the offset field and the table depth are positive,
  a virtual address fits a signed 64-bit constant, the frames suffice for one
  translation path (the root, TABLES_DEPTH - 1 further tables and one data frame), and
  every physical address fits in 64 bits.
\<close>

definition valid_config :: "config \<Rightarrow> bool" where
  "valid_config c \<longleftrightarrow>
     1 \<le> OFFSET_WIDTH c \<and> 1 \<le> TABLES_DEPTH c \<and>
     (TABLES_DEPTH c + 1) * OFFSET_WIDTH c < 63 \<and>
     TABLES_DEPTH c < NUM_FRAMES c \<and>
     NUM_FRAMES c * PAGE_SIZE c \<le> 2 ^ 63"

section \<open>Machine integers\<close>

text \<open>
  uint64_t values are natural numbers below 2^64; where an operation of the source can
  leave that range the reduction modulo 2^64 is written out. word_t, the type of a
  memory word (a signed integer in the source's headers), is an integer; a word_t that
  enters unsigned arithmetic is converted as C does, modulo 2^64.
\<close>

type_synonym uint64 = nat
type_synonym word_t = int

definition to_uint64 :: "int \<Rightarrow> uint64" where
  "to_uint64 x = nat (x mod 2 ^ 64)"

text \<open>The address computed as frame * PAGE_SIZE + i, for a word_t frame.\<close>

definition frameAddr :: "config \<Rightarrow> word_t \<Rightarrow> uint64 \<Rightarrow> uint64" where
  "frameAddr c frame i = to_uint64 (frame * int (PAGE_SIZE c) + int i)"

section \<open>The physical memory\<close>

text \<open>
  Modelled from the spec: the physical-memory collaborator (PMread, PMwrite, PMevict,
  PMrestore), whose code is not under src/. The spec gives the contracts:
  read and write one word at a physical offset; evict "persists the current contents of
  frameIndex to backing storage, associated with pageNumber"; restore "loads
  backing-storage contents for pageNumber into frameIndex" and is "used the first time a
  page's data frame is newly allocated". Backing storage is a swap area: restore moves
  the stored copy of the page back into the frame, so that a page is held either by a
  frame or by backing storage, and a page with no stored copy leaves the frame as it
  is. Words start out zero and backing storage starts out empty.

  Every call is recorded in a log, most recent call first. The log is an observation
  only: no operation reads it. The event Alloc records a return of findNewFrame
  (protected frame, frame returned).
\<close>

datatype pm_event =
    EvRead uint64
  | EvWrite uint64 word_t
  | EvEvict uint64 uint64
  | EvRestore uint64 uint64
  | EvAlloc word_t word_t

record pm =
  ram :: "uint64 \<Rightarrow> word_t"
  swap :: "uint64 \<Rightarrow> (uint64 \<Rightarrow> word_t) option"
  trace :: "pm_event list"

definition pm_init :: pm where
  "pm_init = \<lparr>ram = (\<lambda>_. 0), swap = (\<lambda>_. None), trace = []\<rparr>"

definition PMread :: "pm \<Rightarrow> uint64 \<Rightarrow> word_t \<times> pm" where
  "PMread s physicalAddress =
     (ram s physicalAddress, s\<lparr>trace := EvRead physicalAddress # trace s\<rparr>)"

definition PMwrite :: "pm \<Rightarrow> uint64 \<Rightarrow> word_t \<Rightarrow> pm" where
  "PMwrite s physicalAddress v =
     s\<lparr>ram := (ram s)(physicalAddress := v),
       trace := EvWrite physicalAddress v # trace s\<rparr>"

definition PMevict :: "config \<Rightarrow> pm \<Rightarrow> uint64 \<Rightarrow> uint64 \<Rightarrow> pm" where
  "PMevict c s frameIndex evictedPageIndex =
     s\<lparr>swap := (swap s)(evictedPageIndex \<mapsto> (\<lambda>i. ram s (frameIndex * PAGE_SIZE c + i))),
       trace := EvEvict frameIndex evictedPageIndex # trace s\<rparr>"

definition PMrestore :: "config \<Rightarrow> pm \<Rightarrow> uint64 \<Rightarrow> uint64 \<Rightarrow> pm" where
  "PMrestore c s frameIndex restoredPageIndex =
     (case swap s restoredPageIndex of
        None \<Rightarrow> s\<lparr>trace := EvRestore frameIndex restoredPageIndex # trace s\<rparr>
      | Some page \<Rightarrow>
          s\<lparr>ram := (\<lambda>a. if frameIndex * PAGE_SIZE c \<le> a \<and> a < frameIndex * PAGE_SIZE c + PAGE_SIZE c
                         then page (a - frameIndex * PAGE_SIZE c) else ram s a),
            swap := (swap s)(restoredPageIndex := None),
            trace := EvRestore frameIndex restoredPageIndex # trace s\<rparr>)"

section \<open>The source: VirtualMemory.cpp\<close>

text \<open>clearFrame: the loop writes 0 to each of the PAGE_SIZE words of the frame.\<close>

definition clearFrame :: "config \<Rightarrow> pm \<Rightarrow> uint64 \<Rightarrow> pm" where
  "clearFrame c s frameToClear =
     fold (\<lambda>i s. PMwrite s ((frameToClear * PAGE_SIZE c + i) mod 2 ^ 64) 0) [0..<PAGE_SIZE c] s"

text \<open>getOffset: shift left, then right, by TOTAL_BITS_NUM - OFFSET_WIDTH, in 64 bits.\<close>

definition getOffset :: "config \<Rightarrow> uint64 \<Rightarrow> uint64" where
  "getOffset c address =
     (let shiftDistance = TOTAL_BITS_NUM - OFFSET_WIDTH c
      in ((address * 2 ^ shiftDistance) mod 2 ^ 64) div 2 ^ shiftDistance)"

text \<open>
  getCyclicDist: dist is the larger page minus the smaller one; NUM_PAGES - dist is an
  unsigned subtraction, which wraps when dist exceeds NUM_PAGES.
\<close>

definition getCyclicDist :: "config \<Rightarrow> uint64 \<Rightarrow> uint64 \<Rightarrow> uint64" where
  "getCyclicDist c page1 page2 =
     (let dist = (if page1 > page2 then page1 - page2 else page2 - page1);
          rest = (NUM_PAGES c + 2 ^ 64 - dist) mod 2 ^ 64
      in if dist < rest then dist else rest)"

text \<open>The six out-parameters of findNewFrameHelper.\<close>

record scan =
  maxFrame :: word_t
  emptyFrame :: word_t
  emptyParentAdd :: uint64
  maxDistFrame :: word_t
  maxDistParentAdd :: uint64
  maxDistPage :: uint64

text \<open>
  findNewFrameHelper. The for loop over the PAGE_SIZE entries is a fold that carries
  isEmpty, the out-parameters and the memory. The source descends while
  currDepth differs from TABLES_DEPTH - 1; findNewFrame starts it at currDepth = 0, so
  with TABLES_DEPTH at least 1 the depth never exceeds TABLES_DEPTH - 1. The last branch
  (a depth beyond TABLES_DEPTH - 1, where the source would descend without end) is
  never taken from findNewFrame; it is there to make the recursion well-founded.
  The page number (currPageAdd << OFFSET_WIDTH) + i stays below NUM_PAGES on every path
  from the root, so it does not wrap.
\<close>

function findNewFrameHelper ::
  "config \<Rightarrow> word_t \<Rightarrow> uint64 \<Rightarrow> uint64 \<Rightarrow> uint64 \<Rightarrow> word_t \<Rightarrow> uint64 \<Rightarrow> scan \<times> pm \<Rightarrow> scan \<times> pm"
where
  "findNewFrameHelper c currFrame currParentAdd currDepth virtualAdd lastCreatedFrame currPageAdd (acc, s) =
     (if emptyFrame acc \<noteq> 0 then (acc, s)
      else
        let (isEmpty, acc', s') =
          fold (\<lambda>i (isEmpty, acc, s).
                  let (v, s) = PMread s (frameAddr c currFrame i) in
                  if v \<noteq> 0 then
                    let acc = (if v > maxFrame acc then acc\<lparr>maxFrame := v\<rparr> else acc);
                        ithPageAdd = currPageAdd * 2 ^ OFFSET_WIDTH c + i
                    in if currDepth = TABLES_DEPTH c - 1 then
                         let currDistance = getCyclicDist c (virtualAdd div 2 ^ OFFSET_WIDTH c) ithPageAdd;
                             maxDistance = getCyclicDist c (virtualAdd div 2 ^ OFFSET_WIDTH c) (maxDistPage acc)
                         in if currDistance > maxDistance \<or> maxDistFrame acc = 0
                            then (False,
                                  acc\<lparr>maxDistParentAdd := frameAddr c currFrame i,
                                      maxDistFrame := v,
                                      maxDistPage := ithPageAdd\<rparr>, s)
                            else (False, acc, s)
                       else if currDepth < TABLES_DEPTH c - 1 then
                         let (acc, s) =
                               findNewFrameHelper c v (frameAddr c currFrame i) (currDepth + 1)
                                 virtualAdd lastCreatedFrame ithPageAdd (acc, s)
                         in (False, acc, s)
                       else (False, acc, s)
                  else (isEmpty, acc, s))
               [0..<PAGE_SIZE c] (True, acc, s)
        in if isEmpty \<and> currFrame \<noteq> lastCreatedFrame
           then (acc'\<lparr>emptyFrame := currFrame, emptyParentAdd := currParentAdd\<rparr>, s')
           else (acc', s'))"
  by pat_completeness auto
termination
  by (relation "measure (\<lambda>(c, currFrame, currParentAdd, currDepth, rest). TABLES_DEPTH c - currDepth)") auto

text \<open>findNewFrame: order of importance Empty, Max, Evict.\<close>

definition scan_init :: scan where
  "scan_init = \<lparr>maxFrame = 0, emptyFrame = 0, emptyParentAdd = 0,
                 maxDistFrame = 0, maxDistParentAdd = 0, maxDistPage = 0\<rparr>"

definition findNewFrame :: "config \<Rightarrow> pm \<Rightarrow> uint64 \<Rightarrow> word_t \<Rightarrow> word_t \<times> pm" where
  "findNewFrame c s virtualAdd lastCreatedFrame =
     (let (acc, s) = findNewFrameHelper c 0 0 0 virtualAdd lastCreatedFrame 0 (scan_init, s);
          (frame, s) =
            (if emptyFrame acc \<noteq> 0 then
               (emptyFrame acc, PMwrite s (emptyParentAdd acc) 0)
             else if maxFrame acc + 1 < int (NUM_FRAMES c) then
               (maxFrame acc + 1, s)
             else
               let s = PMwrite s (maxDistParentAdd acc) 0;
                   s = PMevict c s (to_uint64 (maxDistFrame acc)) (maxDistPage acc);
                   s = clearFrame c s (to_uint64 (maxDistFrame acc))
               in (maxDistFrame acc, s))
      in (frame, s\<lparr>trace := EvAlloc lastCreatedFrame frame # trace s\<rparr>))"

text \<open>
  translateVirtualAdd. The loop runs level from TABLES_DEPTH down to 1 and carries add1,
  currFrame and the memory. currFrame is not initialised in the source; the first
  iteration assigns it (TABLES_DEPTH is at least 1), so its initial value here, 0, is
  never read.
\<close>

fun translateLoop :: "config \<Rightarrow> uint64 \<Rightarrow> nat \<Rightarrow> word_t \<times> word_t \<times> pm \<Rightarrow> word_t \<times> word_t \<times> pm" where
  "translateLoop c virtualAdd 0 st = st"
| "translateLoop c virtualAdd (Suc l) (add1, currFrame, s) =
     (let level = Suc l;
          currValue = getOffset c (virtualAdd div 2 ^ (level * OFFSET_WIDTH c));
          currFrame = add1;
          (add1, s) = PMread s (frameAddr c currFrame currValue)
      in if add1 = 0 then
           let (add1, s) = findNewFrame c s virtualAdd currFrame;
               s = PMwrite s (frameAddr c currFrame currValue) add1
           in translateLoop c virtualAdd l (add1, currFrame, s)
         else translateLoop c virtualAdd l (add1, currFrame, s))"

definition translateVirtualAdd :: "config \<Rightarrow> pm \<Rightarrow> uint64 \<Rightarrow> word_t \<times> pm" where
  "translateVirtualAdd c s virtualAdd =
     (let (add1, currFrame, s) = translateLoop c virtualAdd (TABLES_DEPTH c) (0, 0, s);
          s = PMrestore c s (to_uint64 add1) (virtualAdd div 2 ^ OFFSET_WIDTH c)
      in PMread s (frameAddr c currFrame (getOffset c (virtualAdd div 2 ^ OFFSET_WIDTH c))))"

definition VMinitialize :: "config \<Rightarrow> pm \<Rightarrow> pm" where
  "VMinitialize c s = clearFrame c s 0"

text \<open>
  VMread and VMwrite return the int of the source (0 on failure, 1 on success); VMread
  also returns the word it stored through the pointer, if it stored one.
\<close>

definition VMread :: "config \<Rightarrow> pm \<Rightarrow> uint64 \<Rightarrow> int \<times> word_t option \<times> pm" where
  "VMread c s virtualAddress =
     (if virtualAddress > VIRTUAL_MEMORY_SIZE c - 1 then (0, None, s)
      else
        let (frame, s) = translateVirtualAdd c s virtualAddress;
            (v, s) = PMread s (frameAddr c frame (getOffset c virtualAddress))
        in (1, Some v, s))"

definition VMwrite :: "config \<Rightarrow> pm \<Rightarrow> uint64 \<Rightarrow> word_t \<Rightarrow> int \<times> pm" where
  "VMwrite c s virtualAddress v =
     (if virtualAddress > VIRTUAL_MEMORY_SIZE c - 1 then (0, s)
      else
        let (frame, s) = translateVirtualAdd c s virtualAddress;
            s = PMwrite s (frameAddr c frame (getOffset c virtualAddress)) v
        in (1, s))"

section \<open>Concrete configurations\<close>

text \<open>Small configurations on which the theorems are evaluated.\<close>

definition c8 :: config where
  "c8 = \<lparr>OFFSET_WIDTH = 1, TABLES_DEPTH = 3, NUM_FRAMES = 8\<rparr>"

definition c1 :: config where
  "c1 = \<lparr>OFFSET_WIDTH = 1, TABLES_DEPTH = 1, NUM_FRAMES = 2\<rparr>"

section \<open>The traversal as lists\<close>

text \<open>
  The depth-first traversal of findNewFrameHelper, read off the memory as three lists in
  the order of the traversal (a table before its subtrees, the entries of a table by
  increasing index). tableList lists the tables the helper descends into, each with the
  address of its parent entry; linkList lists every nonzero entry it reads (the frames
  compared with maxFrame); leafList lists the entries read at depth TABLES_DEPTH - 1, each
  with its address and its page number. isEmptyFrame is the test the helper makes on a
  table: all PAGE_SIZE entries are 0. The first argument of the lists after the memory is
  the number of levels below the frame.
\<close>

definition isEmptyFrame :: "config \<Rightarrow> (uint64 \<Rightarrow> word_t) \<Rightarrow> word_t \<Rightarrow> bool" where
  "isEmptyFrame c r f = (\<forall>i \<in> set [0..<PAGE_SIZE c]. r (frameAddr c f i) = 0)"

primrec tableList :: "config \<Rightarrow> (uint64 \<Rightarrow> word_t) \<Rightarrow> nat \<Rightarrow> word_t \<Rightarrow> uint64 \<Rightarrow> (word_t \<times> uint64) list" where
  "tableList c r 0 f pa = [(f, pa)]"
| "tableList c r (Suc n) f pa =
     (f, pa) # concat (map (\<lambda>i. if r (frameAddr c f i) = 0 then []
                                else tableList c r n (r (frameAddr c f i)) (frameAddr c f i))
                       [0..<PAGE_SIZE c])"

primrec leafList :: "config \<Rightarrow> (uint64 \<Rightarrow> word_t) \<Rightarrow> nat \<Rightarrow> word_t \<Rightarrow> uint64 \<Rightarrow> (word_t \<times> uint64 \<times> uint64) list" where
  "leafList c r 0 f pg =
     concat (map (\<lambda>i. if r (frameAddr c f i) = 0 then []
                       else [(r (frameAddr c f i), frameAddr c f i, pg * 2 ^ OFFSET_WIDTH c + i)])
                 [0..<PAGE_SIZE c])"
| "leafList c r (Suc n) f pg =
     concat (map (\<lambda>i. if r (frameAddr c f i) = 0 then []
                       else leafList c r n (r (frameAddr c f i)) (pg * 2 ^ OFFSET_WIDTH c + i))
                 [0..<PAGE_SIZE c])"

primrec linkList :: "config \<Rightarrow> (uint64 \<Rightarrow> word_t) \<Rightarrow> nat \<Rightarrow> word_t \<Rightarrow> word_t list" where
  "linkList c r 0 f =
     concat (map (\<lambda>i. if r (frameAddr c f i) = 0 then [] else [r (frameAddr c f i)]) [0..<PAGE_SIZE c])"
| "linkList c r (Suc n) f =
     concat (map (\<lambda>i. if r (frameAddr c f i) = 0 then []
                       else r (frameAddr c f i) # linkList c r n (r (frameAddr c f i)))
                 [0..<PAGE_SIZE c])"

text \<open>effects: the log without the reads, which change nothing.\<close>

definition effects :: "pm_event list \<Rightarrow> pm_event list" where
  "effects es = filter (\<lambda>e. case e of EvRead _ \<Rightarrow> False | _ \<Rightarrow> True) es"

text \<open>
  leafStep is the update of the eviction candidate at a leaf entry, the comparison
  currDistance > maxDistance || *maxDistFrame == 0 of the source. emptyCand is the
  condition under which the helper records a table as the empty frame: it is empty, it is
  not the protected frame, and it is not frame 0 (for *emptyFrame == 0 means none found).
\<close>

definition leafStep :: "config \<Rightarrow> uint64 \<Rightarrow> word_t \<times> uint64 \<times> uint64 \<Rightarrow> word_t \<times> uint64 \<times> uint64 \<Rightarrow> word_t \<times> uint64 \<times> uint64" where
  "leafStep c target best cand =
     (case (best, cand) of ((bf, ba, bp), (f, a, p)) \<Rightarrow>
        if getCyclicDist c target p > getCyclicDist c target bp \<or> bf = 0 then (f, a, p) else (bf, ba, bp))"

definition emptyCand :: "config \<Rightarrow> (uint64 \<Rightarrow> word_t) \<Rightarrow> word_t \<Rightarrow> word_t \<times> uint64 \<Rightarrow> bool" where
  "emptyCand c r prot x = (isEmptyFrame c r (fst x) \<and> fst x \<noteq> prot \<and> fst x \<noteq> 0)"

text \<open>
  helperStep is the body of the loop of findNewFrameHelper, as it stands in the definition
  of the helper. same_mem, distTriple and scan_rel state what a call of the helper does to
  the six out-parameters, in terms of the lists of the subtree it visits.
\<close>

definition helperStep :: "config \<Rightarrow> word_t \<Rightarrow> uint64 \<Rightarrow> uint64 \<Rightarrow> word_t \<Rightarrow> uint64 \<Rightarrow> nat \<Rightarrow> bool \<times> scan \<times> pm \<Rightarrow> bool \<times> scan \<times> pm" where
  "helperStep c currFrame currDepth virtualAdd lastCreatedFrame currPageAdd =
    (\<lambda>i (isEmpty, acc, s).
                  let (v, s) = PMread s (frameAddr c currFrame i) in
                  if v \<noteq> 0 then
                    let acc = (if v > maxFrame acc then acc\<lparr>maxFrame := v\<rparr> else acc);
                        ithPageAdd = currPageAdd * 2 ^ OFFSET_WIDTH c + i
                    in if currDepth = TABLES_DEPTH c - 1 then
                         let currDistance = getCyclicDist c (virtualAdd div 2 ^ OFFSET_WIDTH c) ithPageAdd;
                             maxDistance = getCyclicDist c (virtualAdd div 2 ^ OFFSET_WIDTH c) (maxDistPage acc)
                         in if currDistance > maxDistance \<or> maxDistFrame acc = 0
                            then (False,
                                  acc\<lparr>maxDistParentAdd := frameAddr c currFrame i,
                                      maxDistFrame := v,
                                      maxDistPage := ithPageAdd\<rparr>, s)
                            else (False, acc, s)
                       else if currDepth < TABLES_DEPTH c - 1 then
                         let (acc, s) =
                               findNewFrameHelper c v (frameAddr c currFrame i) (currDepth + 1)
                                 virtualAdd lastCreatedFrame ithPageAdd (acc, s)
                         in (False, acc, s)
                       else (False, acc, s)
                  else (isEmpty, acc, s))"

definition same_mem :: "pm \<Rightarrow> pm \<Rightarrow> bool" where
  "same_mem s s' \<longleftrightarrow> ram s' = ram s \<and> swap s' = swap s \<and> effects (trace s') = effects (trace s)"

definition distTriple :: "scan \<Rightarrow> word_t \<times> uint64 \<times> uint64" where
  "distTriple acc = (maxDistFrame acc, maxDistParentAdd acc, maxDistPage acc)"

definition scan_rel ::
  "config \<Rightarrow> (uint64 \<Rightarrow> word_t) \<Rightarrow> word_t \<Rightarrow> uint64 \<Rightarrow> (word_t \<times> uint64) list \<Rightarrow> word_t list \<Rightarrow>
   (word_t \<times> uint64 \<times> uint64) list \<Rightarrow> scan \<Rightarrow> scan \<Rightarrow> bool" where
  "scan_rel c r prot target T L F acc acc' \<longleftrightarrow>
     (if emptyFrame acc \<noteq> 0
      then emptyFrame acc' = emptyFrame acc \<and> emptyParentAdd acc' = emptyParentAdd acc
      else case find (emptyCand c r prot) T of
             Some x \<Rightarrow> emptyFrame acc' = fst x \<and> emptyParentAdd acc' = snd x
           | None \<Rightarrow> emptyFrame acc' = 0 \<and> maxFrame acc' = foldl max (maxFrame acc) L \<and>
                     distTriple acc' = foldl (leafStep c target) (distTriple acc) F)"

text \<open>The parts of the three lists that belong to the subtree under entry i.\<close>

fun subTables :: "config \<Rightarrow> (uint64 \<Rightarrow> word_t) \<Rightarrow> nat \<Rightarrow> word_t \<Rightarrow> nat \<Rightarrow> (word_t \<times> uint64) list" where
  "subTables c r 0 f i = []"
| "subTables c r (Suc m) f i =
     (if r (frameAddr c f i) = 0 then [] else tableList c r m (r (frameAddr c f i)) (frameAddr c f i))"

fun subLinks :: "config \<Rightarrow> (uint64 \<Rightarrow> word_t) \<Rightarrow> nat \<Rightarrow> word_t \<Rightarrow> nat \<Rightarrow> word_t list" where
  "subLinks c r 0 f i = (if r (frameAddr c f i) = 0 then [] else [r (frameAddr c f i)])"
| "subLinks c r (Suc m) f i =
     (if r (frameAddr c f i) = 0 then [] else r (frameAddr c f i) # linkList c r m (r (frameAddr c f i)))"

fun subLeaves :: "config \<Rightarrow> (uint64 \<Rightarrow> word_t) \<Rightarrow> nat \<Rightarrow> word_t \<Rightarrow> uint64 \<Rightarrow> nat \<Rightarrow> (word_t \<times> uint64 \<times> uint64) list" where
  "subLeaves c r 0 f pg i =
     (if r (frameAddr c f i) = 0 then []
      else [(r (frameAddr c f i), frameAddr c f i, pg * 2 ^ OFFSET_WIDTH c + i)])"
| "subLeaves c r (Suc m) f pg i =
     (if r (frameAddr c f i) = 0 then []
      else leafList c r m (r (frameAddr c f i)) (pg * 2 ^ OFFSET_WIDTH c + i))"

section \<open>findNewFrame in terms of the lists\<close>

text \<open>
  maxUsed is the largest frame linked in the tree, firstEmpty the first empty table of the
  traversal that may be taken, evictionChoice the leaf entry that the fold of leafStep
  ends with. clearedRam and clearEvents are the memory and the log after clearFrame.
  findNewFrame_spec is the result of findNewFrame stated from these: the frame returned,
  the memory, the backing storage and the log without the reads; observe takes the same
  four from a result of findNewFrame.
\<close>

definition maxUsed :: "config \<Rightarrow> (uint64 \<Rightarrow> word_t) \<Rightarrow> word_t" where
  "maxUsed c r = foldl max 0 (linkList c r (TABLES_DEPTH c - 1) 0)"

definition firstEmpty :: "config \<Rightarrow> (uint64 \<Rightarrow> word_t) \<Rightarrow> word_t \<Rightarrow> (word_t \<times> uint64) option" where
  "firstEmpty c r prot = find (emptyCand c r prot) (tableList c r (TABLES_DEPTH c - 1) 0 0)"

definition evictionChoice :: "config \<Rightarrow> (uint64 \<Rightarrow> word_t) \<Rightarrow> uint64 \<Rightarrow> word_t \<times> uint64 \<times> uint64" where
  "evictionChoice c r va =
     foldl (leafStep c (va div 2 ^ OFFSET_WIDTH c)) (0, 0, 0) (leafList c r (TABLES_DEPTH c - 1) 0 0)"

definition clearedRam :: "config \<Rightarrow> (uint64 \<Rightarrow> word_t) \<Rightarrow> uint64 \<Rightarrow> (uint64 \<Rightarrow> word_t)" where
  "clearedRam c r f = (\<lambda>a. if a \<in> set (map (\<lambda>i. (f * PAGE_SIZE c + i) mod 2 ^ 64) [0..<PAGE_SIZE c]) then 0 else r a)"

definition clearEvents :: "config \<Rightarrow> uint64 \<Rightarrow> pm_event list" where
  "clearEvents c f = map (\<lambda>i. EvWrite ((f * PAGE_SIZE c + i) mod 2 ^ 64) 0) (rev [0..<PAGE_SIZE c])"

definition findNewFrame_spec ::
  "config \<Rightarrow> (uint64 \<Rightarrow> word_t) \<Rightarrow> (uint64 \<Rightarrow> (uint64 \<Rightarrow> word_t) option) \<Rightarrow> pm_event list \<Rightarrow> uint64 \<Rightarrow> word_t \<Rightarrow>
   word_t \<times> (uint64 \<Rightarrow> word_t) \<times> (uint64 \<Rightarrow> (uint64 \<Rightarrow> word_t) option) \<times> pm_event list" where
  "findNewFrame_spec c r sw es va prot =
     (case firstEmpty c r prot of
        Some (e, pa) \<Rightarrow> (e, r(pa := 0), sw, EvAlloc prot e # EvWrite pa 0 # es)
      | None \<Rightarrow>
          if maxUsed c r + 1 < int (NUM_FRAMES c)
          then (maxUsed c r + 1, r, sw, EvAlloc prot (maxUsed c r + 1) # es)
          else
            (case evictionChoice c r va of (f, pa, pg) \<Rightarrow>
               (f, clearedRam c (r(pa := 0)) (to_uint64 f),
                sw(pg \<mapsto> (\<lambda>i. (r(pa := 0)) (to_uint64 f * PAGE_SIZE c + i))),
                EvAlloc prot f # clearEvents c (to_uint64 f) @ [EvEvict (to_uint64 f) pg, EvWrite pa 0] @ es)))"

definition observe :: "word_t \<times> pm \<Rightarrow> word_t \<times> (uint64 \<Rightarrow> word_t) \<times> (uint64 \<Rightarrow> (uint64 \<Rightarrow> word_t) option) \<times> pm_event list" where
  "observe x = (fst x, ram (snd x), swap (snd x), effects (trace (snd x)))"

section \<open>Observations on the log, and states for the examples\<close>

text \<open>
  restores and evictions list the calls of PMrestore and PMevict that the log records,
  most recent first, each with its frame and its page. translateStep is one iteration of
  the loop of translateVirtualAdd. leafDist is the cyclic distance of a leaf entry from
  the page under translation. The states named here are reached from VMinitialize by the
  calls shown, in the small configurations c1 to c4; garbage_state is a memory that
  holds a nonzero word.
\<close>

fun restores :: "pm_event list \<Rightarrow> (uint64 \<times> uint64) list" where
  "restores [] = []"
| "restores (EvRestore f p # es) = (f, p) # restores es"
| "restores (e # es) = restores es"

definition translateStep :: "config \<Rightarrow> uint64 \<Rightarrow> nat \<Rightarrow> word_t \<times> word_t \<times> pm \<Rightarrow> word_t \<times> word_t \<times> pm" where
  "translateStep c virtualAdd level st =
     (case st of (add1, currFrame, s) \<Rightarrow>
        let currValue = getOffset c (virtualAdd div 2 ^ (level * OFFSET_WIDTH c));
            currFrame = add1;
            (add1, s) = PMread s (frameAddr c currFrame currValue)
        in if add1 = 0 then
             let (add1, s) = findNewFrame c s virtualAdd currFrame;
                 s = PMwrite s (frameAddr c currFrame currValue) add1
             in (add1, currFrame, s)
           else (add1, currFrame, s))"

definition mapped_state :: pm where
  "mapped_state = snd (snd (VMread c1 (VMinitialize c1 pm_init) 0))"

definition c2 :: config where
  "c2 = \<lparr>OFFSET_WIDTH = 1, TABLES_DEPTH = 2, NUM_FRAMES = 4\<rparr>"

definition c3 :: config where
  "c3 = \<lparr>OFFSET_WIDTH = 1, TABLES_DEPTH = 1, NUM_FRAMES = 3\<rparr>"

definition leafDist :: "config \<Rightarrow> uint64 \<Rightarrow> word_t \<times> uint64 \<times> uint64 \<Rightarrow> uint64" where
  "leafDist c va x = getCyclicDist c (va div 2 ^ OFFSET_WIDTH c) (snd (snd x))"

definition c4 :: config where
  "c4 = \<lparr>OFFSET_WIDTH = 2, TABLES_DEPTH = 1, NUM_FRAMES = 3\<rparr>"

definition far_state :: pm where
  "far_state = snd (snd (VMread c4 (snd (snd (VMread c4 (VMinitialize c4 pm_init) 0))) 4))"

definition tie_state :: pm where
  "tie_state = snd (snd (VMread c4 (snd (snd (VMread c4 (VMinitialize c4 pm_init) 4))) 12))"

fun evictions :: "pm_event list \<Rightarrow> (uint64 \<times> uint64) list" where
  "evictions [] = []"
| "evictions (EvEvict f p # es) = (f, p) # evictions es"
| "evictions (e # es) = evictions es"


definition garbage_state :: pm where
  "garbage_state = pm_init\<lparr>ram := (\<lambda>_. 0)(2 := 5)\<rparr>"


section \<open>The page table as a tree of paths\<close>

text \<open>
  A path is the list of the indices taken at the successive levels, from the root table
  (frame 0) down; vp says that every index is below PAGE_SIZE. walk follows a path through
  the memory the way the loop of translateVirtualAdd does: the entry at index i of the
  current frame is the next frame, and the entry 0 means that nothing is mapped there (the
  walk then stays at 0). pageFrom is the page number that a path spells, entryAddr the
  physical address of the entry that a nonempty path ends in.
\<close>

definition vp :: "config \<Rightarrow> nat list \<Rightarrow> bool" where
  "vp c p \<longleftrightarrow> (\<forall>i \<in> set p. i < PAGE_SIZE c)"

fun walk :: "config \<Rightarrow> (uint64 \<Rightarrow> word_t) \<Rightarrow> word_t \<Rightarrow> nat list \<Rightarrow> word_t" where
  "walk c r f [] = f"
| "walk c r f (i # p) = (if r (frameAddr c f i) = 0 then 0 else walk c r (r (frameAddr c f i)) p)"

definition pageFrom :: "config \<Rightarrow> uint64 \<Rightarrow> nat list \<Rightarrow> uint64" where
  "pageFrom c pg p = foldl (\<lambda>a i. a * 2 ^ OFFSET_WIDTH c + i) pg p"

definition entryAddr :: "config \<Rightarrow> (uint64 \<Rightarrow> word_t) \<Rightarrow> word_t \<Rightarrow> nat list \<Rightarrow> uint64" where
  "entryAddr c r f p = frameAddr c (walk c r f (butlast p)) (last p)"

text \<open>
  mappedPath: a nonempty path of at most TABLES_DEPTH indices that ends in a frame.
  tablePath: a path to a table (the root, or a frame at depth below TABLES_DEPTH).
  nodePath: a path to any frame of the tree, the root included.
\<close>

definition mappedPath :: "config \<Rightarrow> (uint64 \<Rightarrow> word_t) \<Rightarrow> nat list \<Rightarrow> bool" where
  "mappedPath c r p \<longleftrightarrow> vp c p \<and> p \<noteq> [] \<and> length p \<le> TABLES_DEPTH c \<and> walk c r 0 p \<noteq> 0"

definition tablePath :: "config \<Rightarrow> (uint64 \<Rightarrow> word_t) \<Rightarrow> nat list \<Rightarrow> bool" where
  "tablePath c r p \<longleftrightarrow> vp c p \<and> length p < TABLES_DEPTH c \<and> (p = [] \<or> walk c r 0 p \<noteq> 0)"

definition nodePath :: "config \<Rightarrow> (uint64 \<Rightarrow> word_t) \<Rightarrow> nat list \<Rightarrow> bool" where
  "nodePath c r p \<longleftrightarrow> vp c p \<and> length p \<le> TABLES_DEPTH c \<and> (p = [] \<or> walk c r 0 p \<noteq> 0)"

text \<open>
  The path of a virtual address: the indices that the loop of translateVirtualAdd computes,
  getOffset (virtualAdd >> (level * OFFSET_WIDTH)) for level = TABLES_DEPTH down to 1.
\<close>

definition levelPath :: "config \<Rightarrow> uint64 \<Rightarrow> nat \<Rightarrow> nat list" where
  "levelPath c va l = map (\<lambda>j. getOffset c (va div 2 ^ (j * OFFSET_WIDTH c))) (rev [1..<Suc l])"

definition vaPath :: "config \<Rightarrow> uint64 \<Rightarrow> nat list" where
  "vaPath c va = levelPath c va (TABLES_DEPTH c)"

section \<open>The invariant of the reachable states\<close>

text \<open>
  tree_inv c r m H: the memory r holds a tree in which the frames 1..m are in use. Two
  different paths never end in the same frame; every frame a path ends in lies in 1..m and
  outside H; every frame of 1..m outside H is the end of some path; the frames of H (at most
  one, the frame that findNewFrame has returned and the translator has not linked yet) lie
  in 1..m and hold zeros only; and every word above frame m is 0.
\<close>

definition tree_inv :: "config \<Rightarrow> (uint64 \<Rightarrow> word_t) \<Rightarrow> int \<Rightarrow> int set \<Rightarrow> bool" where
  "tree_inv c r m H \<longleftrightarrow>
     0 \<le> m \<and> m < int (NUM_FRAMES c) \<and>
     (\<forall>p q. mappedPath c r p \<and> mappedPath c r q \<and> walk c r 0 p = walk c r 0 q \<longrightarrow> p = q) \<and>
     (\<forall>p. mappedPath c r p \<longrightarrow> 0 < walk c r 0 p \<and> walk c r 0 p \<le> m \<and> walk c r 0 p \<notin> H) \<and>
     (\<forall>f. 0 < f \<and> f \<le> m \<and> f \<notin> H \<longrightarrow> (\<exists>p. mappedPath c r p \<and> walk c r 0 p = f)) \<and>
     (\<forall>f \<in> H. 0 < f \<and> f \<le> m \<and> (\<forall>i < PAGE_SIZE c. r (frameAddr c f i) = 0)) \<and>
     (\<forall>a. nat (m + 1) * PAGE_SIZE c \<le> a \<longrightarrow> r a = 0)"

text \<open>
  vmem: the word that the virtual memory holds at an address. A page that has a copy in the
  backing storage reads from the copy; otherwise it reads from the frame its path ends in,
  and a page that was never touched reads 0.
\<close>

definition vmem :: "config \<Rightarrow> pm \<Rightarrow> uint64 \<Rightarrow> word_t" where
  "vmem c s va =
     (case swap s (va div 2 ^ OFFSET_WIDTH c) of
        Some w \<Rightarrow> w (getOffset c va)
      | None \<Rightarrow>
          if walk c (ram s) 0 (vaPath c va) = 0 then 0
          else ram s (frameAddr c (walk c (ram s) 0 (vaPath c va)) (getOffset c va)))"

text \<open>
  swap_inv c s X: a page that is mapped has no copy in the backing storage, except the
  pages of X (the page under translation, between the linking of its frame and PMrestore).
\<close>

definition swap_inv :: "config \<Rightarrow> pm \<Rightarrow> uint64 set \<Rightarrow> bool" where
  "swap_inv c s X \<longleftrightarrow>
     (\<forall>p. mappedPath c (ram s) p \<and> length p = TABLES_DEPTH c \<and> pageFrom c 0 p \<notin> X
          \<longrightarrow> swap s (pageFrom c 0 p) = None)"

text \<open>
  event_ok: what the log may contain. A write stays within the frames 0..m, an evicted or
  restored frame lies in 1..m, and a frame returned by findNewFrame lies in 1..m and differs
  from the protected frame of that call.
\<close>

fun event_ok :: "config \<Rightarrow> int \<Rightarrow> pm_event \<Rightarrow> bool" where
  "event_ok c m (EvRead a) = True"
| "event_ok c m (EvWrite a v) = (a < nat (m + 1) * PAGE_SIZE c)"
| "event_ok c m (EvEvict f p) = (0 < f \<and> int f \<le> m)"
| "event_ok c m (EvRestore f p) = (0 < f \<and> int f \<le> m)"
| "event_ok c m (EvAlloc q f) = (f \<noteq> q \<and> 0 < f \<and> f \<le> m)"

definition log_ok :: "config \<Rightarrow> int \<Rightarrow> pm_event list \<Rightarrow> bool" where
  "log_ok c m es \<longleftrightarrow> (\<forall>e \<in> set es. event_ok c m e)"

definition mid_inv :: "config \<Rightarrow> pm \<Rightarrow> int \<Rightarrow> int set \<Rightarrow> uint64 set \<Rightarrow> bool" where
  "mid_inv c s m H X \<longleftrightarrow> tree_inv c (ram s) m H \<and> log_ok c m (trace s) \<and> swap_inv c s X"

text \<open>
  alloc_post: what a call of findNewFrame leaves for the table at path q that asked for the
  frame. The table is still there, words were changed to 0 only, and the virtual memory
  reads as before.
\<close>

definition alloc_post :: "config \<Rightarrow> pm \<Rightarrow> pm \<Rightarrow> nat list \<Rightarrow> bool" where
  "alloc_post c s s' q \<longleftrightarrow>
     tablePath c (ram s') q \<and> walk c (ram s') 0 q = walk c (ram s) 0 q \<and>
     (\<forall>a. ram s' a \<noteq> ram s a \<longrightarrow> ram s' a = 0) \<and>
     (\<forall>a < VIRTUAL_MEMORY_SIZE c. vmem c s' a = vmem c s a)"

section \<open>Sequences of calls\<close>

text \<open>
  A client calls VMread and VMwrite in some order; run applies a list of calls to a state,
  keeping the state that each call leaves. writes_to a op: the call op is a VMwrite to the
  address a. allocs lists the calls of findNewFrame that the log records, most recent
  first, each as the pair of the protected frame it was given and the frame it returned.
\<close>

datatype vm_op = Read uint64 | Write uint64 word_t

fun apply_op :: "config \<Rightarrow> pm \<Rightarrow> vm_op \<Rightarrow> pm" where
  "apply_op c s (Read a) = snd (snd (VMread c s a))"
| "apply_op c s (Write a x) = snd (VMwrite c s a x)"

definition run :: "config \<Rightarrow> pm \<Rightarrow> vm_op list \<Rightarrow> pm" where
  "run c s ops = foldl (apply_op c) s ops"

fun writes_to :: "uint64 \<Rightarrow> vm_op \<Rightarrow> bool" where
  "writes_to a (Read b) = False"
| "writes_to a (Write b x) = (b = a)"

fun allocs :: "pm_event list \<Rightarrow> (word_t \<times> word_t) list" where
  "allocs [] = []"
| "allocs (EvAlloc q f # es) = (q, f) # allocs es"
| "allocs (e # es) = allocs es"

section \<open>The distance of the design\<close>

text \<open>
  The cyclic distance as the design text gives it, d(a, b) = min(|a - b|, NUM_PAGES -
  |a - b|), written from those words over the integers. It is the measure against which
  the choice of the eviction tier is stated; getCyclicDist above is the function of the
  source.
\<close>

definition cyclicDist_spec :: "config \<Rightarrow> uint64 \<Rightarrow> uint64 \<Rightarrow> int" where
  "cyclicDist_spec c a b = min \<bar>int a - int b\<bar> (int (NUM_PAGES c) - \<bar>int a - int b\<bar>)"

section \<open>The calls of findNewFrame\<close>

text \<open>
  translatePrefix is the loop of translateVirtualAdd stopped after its first k iterations
  (the levels TABLES_DEPTH down to TABLES_DEPTH - k + 1), started as the function starts
  it. The iteration that follows reads the entry at callAddr, in the frame callFrame that
  the walk has reached; callEntry is the value it reads and callState the memory after
  the read. When the entry is 0 the source calls findNewFrame on exactly this memory, with
  the virtual address and callFrame as the protected frame. The memory before the
  translation is any state reached from VMinitialize on a zeroed memory by the calls ops.
\<close>

fun translatePrefix :: "config \<Rightarrow> uint64 \<Rightarrow> nat \<Rightarrow> pm \<Rightarrow> word_t \<times> word_t \<times> pm" where
  "translatePrefix c virtualAdd 0 s = (0, 0, s)"
| "translatePrefix c virtualAdd (Suc k) s =
     translateStep c virtualAdd (TABLES_DEPTH c - k) (translatePrefix c virtualAdd k s)"








section \<open>Arithmetic helpers\<close>

lemma NUM_PAGES_bound: "valid_config c \<Longrightarrow> NUM_PAGES c < 2 ^ 63"
proof -
  assume v: "valid_config c"
  then have "TABLES_DEPTH c * OFFSET_WIDTH c < 63" by (auto simp: valid_config_def)
  then have "(2::nat) ^ (TABLES_DEPTH c * OFFSET_WIDTH c) < 2 ^ 63"
    by (intro power_strict_increasing) auto
  then show ?thesis by (simp add: NUM_PAGES_def)
qed

lemma valid_c8: "valid_config c8"
  by (simp add: valid_config_def c8_def PAGE_SIZE_def)

lemma valid_c1: "valid_config c1"
  by (simp add: valid_config_def c1_def PAGE_SIZE_def)

section \<open>Cyclic distance\<close>

text \<open>
  C9. For page numbers a and b below NUM_PAGES, getCyclicDist a b is
  min(|a - b|, NUM_PAGES - |a - b|). The instance of the claim, NUM_PAGES = 8 with
  d(1, 6) = 3 and d(0, 7) = 1, is the witness.
\<close>

theorem getCyclicDist_correct:
  assumes "valid_config c" "a < NUM_PAGES c" "b < NUM_PAGES c"
  shows "int (getCyclicDist c a b) = min \<bar>int a - int b\<bar> (int (NUM_PAGES c) - \<bar>int a - int b\<bar>)"
proof -
  have n: "NUM_PAGES c < 2 ^ 63" using assms(1) by (rule NUM_PAGES_bound)
  define d where "d = (if a > b then a - b else b - a)"
  have dn: "d < NUM_PAGES c" using assms by (auto simp: d_def)
  have di: "int d = \<bar>int a - int b\<bar>" by (auto simp: d_def)
  have r: "(NUM_PAGES c + 2 ^ 64 - d) mod 2 ^ 64 = NUM_PAGES c - d"
  proof -
    define K :: nat where "K = 2 ^ 64"
    have "NUM_PAGES c - d < K" using n by (simp add: K_def)
    moreover have "NUM_PAGES c + K - d = K + (NUM_PAGES c - d)" using dn by simp
    ultimately have "(NUM_PAGES c + K - d) mod K = NUM_PAGES c - d"
      by (simp only: mod_add_self1 mod_less)
    then show ?thesis by (simp only: K_def)
  qed
  have "getCyclicDist c a b = (if d < NUM_PAGES c - d then d else NUM_PAGES c - d)"
    unfolding getCyclicDist_def Let_def d_def[symmetric] r ..
  then have "int (getCyclicDist c a b) = min (int d) (int (NUM_PAGES c) - int d)"
    using dn by (auto simp: min_def)
  then show ?thesis by (simp add: di)
qed

theorem getCyclicDist_correct_witness:
  "valid_config c8 \<and> NUM_PAGES c8 = 8 \<and> getCyclicDist c8 1 6 = 3 \<and> getCyclicDist c8 0 7 = 1"
proof -
  have n: "NUM_PAGES c8 = 8" by (simp add: NUM_PAGES_def c8_def)
  have "int (getCyclicDist c8 1 6) = 3"
    using getCyclicDist_correct[OF valid_c8, of 1 6] by (simp add: n)
  moreover have "int (getCyclicDist c8 0 7) = 1"
    using getCyclicDist_correct[OF valid_c8, of 0 7] by (simp add: n)
  ultimately show ?thesis using valid_c8 n by simp
qed

section \<open>The range check of VMread and VMwrite\<close>

text \<open>
  C5. VMread and VMwrite return 0 exactly when the virtual address is at least
  VIRTUAL_MEMORY_SIZE; then the memory, the backing storage and the log of calls are
  unchanged (no call of the physical memory was made) and VMread stores no word. For
  every address below VIRTUAL_MEMORY_SIZE they return 1.
\<close>

theorem VM_range_check:
  "(fst (VMread c s a) = 0 \<longleftrightarrow> a \<ge> VIRTUAL_MEMORY_SIZE c) \<and>
   (fst (VMwrite c s a v) = 0 \<longleftrightarrow> a \<ge> VIRTUAL_MEMORY_SIZE c) \<and>
   (a \<ge> VIRTUAL_MEMORY_SIZE c \<longrightarrow> VMread c s a = (0, None, s) \<and> VMwrite c s a v = (0, s)) \<and>
   (a < VIRTUAL_MEMORY_SIZE c \<longrightarrow> fst (VMread c s a) = 1 \<and> fst (VMwrite c s a v) = 1)"
proof -
  have pos: "0 < VIRTUAL_MEMORY_SIZE c" by (simp add: VIRTUAL_MEMORY_SIZE_def)
  then have eq: "a > VIRTUAL_MEMORY_SIZE c - 1 \<longleftrightarrow> a \<ge> VIRTUAL_MEMORY_SIZE c" by arith
  show ?thesis using pos
    by (auto simp: VMread_def VMwrite_def eq Let_def split: prod.splits)
qed

theorem VM_range_check_witness:
  "VIRTUAL_MEMORY_SIZE c1 = 4 \<and>
   VMread c1 pm_init 4 = (0, None, pm_init) \<and> VMwrite c1 pm_init 4 7 = (0, pm_init) \<and>
   fst (VMread c1 pm_init 3) = 1 \<and> fst (VMwrite c1 pm_init 3 7) = 1"
proof -
  have n: "VIRTUAL_MEMORY_SIZE c1 = 4" by (simp add: VIRTUAL_MEMORY_SIZE_def c1_def)
  show ?thesis
    using VM_range_check[of c1 pm_init 4 7] VM_range_check[of c1 pm_init 3 7]
    by (simp add: n)
qed

lemma helper_unfold:
  "findNewFrameHelper c currFrame currParentAdd currDepth virtualAdd lastCreatedFrame currPageAdd (acc, s) =
     (if emptyFrame acc \<noteq> 0 then (acc, s)
      else
        let (isEmpty, acc', s') =
          fold (helperStep c currFrame currDepth virtualAdd lastCreatedFrame currPageAdd)
               [0..<PAGE_SIZE c] (True, acc, s)
        in if isEmpty \<and> currFrame \<noteq> lastCreatedFrame
           then (acc'\<lparr>emptyFrame := currFrame, emptyParentAdd := currParentAdd\<rparr>, s')
           else (acc', s'))"
  unfolding helperStep_def by (rule findNewFrameHelper.simps)

declare findNewFrameHelper.simps [simp del]

lemma same_mem_refl [simp]: "same_mem s s"
  by (simp add: same_mem_def)

lemma same_mem_trans: "same_mem s s1 \<Longrightarrow> same_mem s1 s2 \<Longrightarrow> same_mem s s2"
  by (simp add: same_mem_def)

lemma same_mem_PMread: "PMread s a = (v, s') \<Longrightarrow> v = ram s a \<and> same_mem s s'"
  by (auto simp: PMread_def same_mem_def effects_def)

lemma scan_rel_refl [simp]: "scan_rel c r prot target [] [] [] acc acc"
  by (simp add: scan_rel_def)

lemma find_emptyCand_nonzero: "find (emptyCand c r prot) T = Some x \<Longrightarrow> fst x \<noteq> 0"
  by (auto simp: find_Some_iff emptyCand_def)

lemma find_app:
  "find P (xs @ ys) = (case find P xs of Some x \<Rightarrow> Some x | None \<Rightarrow> find P ys)"
  by (induction xs) auto

lemma scan_rel_trans:
  assumes "scan_rel c r prot target T1 L1 F1 a b" and "scan_rel c r prot target T2 L2 F2 b d"
  shows "scan_rel c r prot target (T1 @ T2) (L1 @ L2) (F1 @ F2) a d"
proof (cases "emptyFrame a \<noteq> 0")
  case True
  then show ?thesis using assms by (simp add: scan_rel_def)
next
  case False
  show ?thesis
  proof (cases "find (emptyCand c r prot) T1")
    case None
    then show ?thesis using assms False
      by (auto simp: scan_rel_def find_app split: option.splits)
  next
    case (Some x)
    then have "fst x \<noteq> 0" by (rule find_emptyCand_nonzero)
    then show ?thesis using assms False Some
      by (auto simp: scan_rel_def find_app split: option.splits)
  qed
qed

lemma tableList_sub: "tableList c r n f pa = (f, pa) # concat (map (subTables c r n f) [0..<PAGE_SIZE c])"
  by (cases n) (simp_all cong: map_cong)

lemma linkList_sub: "linkList c r n f = concat (map (subLinks c r n f) [0..<PAGE_SIZE c])"
  by (cases n) (simp_all cong: map_cong)

lemma leafList_sub: "leafList c r n f pg = concat (map (subLeaves c r n f pg) [0..<PAGE_SIZE c])"
  by (cases n) (simp_all cong: map_cong)

lemma scan_rel_link: "v \<noteq> 0 \<Longrightarrow>
  scan_rel c r prot target [] [v] [] acc (if v > maxFrame acc then acc\<lparr>maxFrame := v\<rparr> else acc)"
  by (auto simp: scan_rel_def distTriple_def max_def)

lemma step_rel:
  assumes IH: "\<And>m f pa pg acc s acc' s'. n = Suc m \<Longrightarrow>
      findNewFrameHelper c f pa (Suc d) va prot pg (acc, s) = (acc', s') \<Longrightarrow>
      scan_rel c (ram s) prot (va div 2 ^ OFFSET_WIDTH c) (tableList c (ram s) m f pa) (linkList c (ram s) m f)
        (leafList c (ram s) m f pg) acc acc' \<and> same_mem s s'"
    and d: "d + n + 1 = TABLES_DEPTH c"
    and st: "helperStep c f d va prot pg i (b, acc, s) = (b', acc', s')"
  shows "b' = (b \<and> ram s (frameAddr c f i) = 0) \<and> same_mem s s' \<and>
         scan_rel c (ram s) prot (va div 2 ^ OFFSET_WIDTH c) (subTables c (ram s) n f i) (subLinks c (ram s) n f i)
           (subLeaves c (ram s) n f pg i) acc acc'"
proof (cases "ram s (frameAddr c f i) = 0")
  case True
  then show ?thesis using st
    by (cases n) (auto simp: helperStep_def PMread_def same_mem_def effects_def)
next
  case False
  let ?v = "ram s (frameAddr c f i)"
  let ?s1 = "s\<lparr>trace := EvRead (frameAddr c f i) # trace s\<rparr>"
  let ?acc1 = "(if ?v > maxFrame acc then acc\<lparr>maxFrame := ?v\<rparr> else acc)"
  have m1: "same_mem s ?s1" by (simp add: same_mem_def effects_def)
  have l1: "scan_rel c (ram s) prot (va div 2 ^ OFFSET_WIDTH c) [] [?v] [] acc ?acc1"
    using False by (rule scan_rel_link)
  show ?thesis
  proof (cases n)
    case 0
    then have dd: "d = TABLES_DEPTH c - 1" using d by simp
    let ?cand = "(?v, frameAddr c f i, pg * 2 ^ OFFSET_WIDTH c + i)"
    have res: "b' = False \<and> s' = ?s1 \<and> acc' =
       (if getCyclicDist c (va div 2 ^ OFFSET_WIDTH c) (pg * 2 ^ OFFSET_WIDTH c + i)
            > getCyclicDist c (va div 2 ^ OFFSET_WIDTH c) (maxDistPage ?acc1) \<or> maxDistFrame ?acc1 = 0
        then ?acc1\<lparr>maxDistParentAdd := frameAddr c f i, maxDistFrame := ?v,
                      maxDistPage := pg * 2 ^ OFFSET_WIDTH c + i\<rparr>
        else ?acc1)"
      using st False dd by (auto simp: helperStep_def PMread_def Let_def split: if_splits)
    have "scan_rel c (ram s) prot (va div 2 ^ OFFSET_WIDTH c) [] [] [?cand] ?acc1 acc'"
      by (simp add: res scan_rel_def distTriple_def leafStep_def)
    with l1 have "scan_rel c (ram s) prot (va div 2 ^ OFFSET_WIDTH c) ([] @ []) ([?v] @ []) ([] @ [?cand]) acc acc'"
      by (rule scan_rel_trans)
    then show ?thesis using res m1 False 0 by simp
  next
    case (Suc m)
    then have dd: "d \<noteq> TABLES_DEPTH c - 1" "d < TABLES_DEPTH c - 1" using d by auto
    obtain acc2 s2 where h: "findNewFrameHelper c ?v (frameAddr c f i) (Suc d) va prot
        (pg * 2 ^ OFFSET_WIDTH c + i) (?acc1, ?s1) = (acc2, s2)" by fastforce
    have res: "b' = False \<and> acc' = acc2 \<and> s' = s2"
      using st False h dd by (simp add: helperStep_def PMread_def Let_def)
    from IH[OF Suc h] have
      "scan_rel c (ram s) prot (va div 2 ^ OFFSET_WIDTH c) (tableList c (ram s) m ?v (frameAddr c f i))
         (linkList c (ram s) m ?v) (leafList c (ram s) m ?v (pg * 2 ^ OFFSET_WIDTH c + i)) ?acc1 acc2"
      and m2: "same_mem ?s1 s2" by simp_all
    with l1 have "scan_rel c (ram s) prot (va div 2 ^ OFFSET_WIDTH c) ([] @ tableList c (ram s) m ?v (frameAddr c f i))
         ([?v] @ linkList c (ram s) m ?v) ([] @ leafList c (ram s) m ?v (pg * 2 ^ OFFSET_WIDTH c + i)) acc acc2"
      by (intro scan_rel_trans)
    then show ?thesis using res False Suc same_mem_trans[OF m1 m2] by simp
  qed
qed

lemma same_mem_ram: "same_mem s s' \<Longrightarrow> ram s' = ram s"
  by (simp add: same_mem_def)

lemma fold_rel:
  assumes step: "\<And>i b acc s b' acc' s'.
      helperStep c f d va prot pg i (b, acc, s) = (b', acc', s') \<Longrightarrow>
      b' = (b \<and> ram s (frameAddr c f i) = 0) \<and> same_mem s s' \<and>
      scan_rel c (ram s) prot tgt (subTables c (ram s) n f i) (subLinks c (ram s) n f i)
        (subLeaves c (ram s) n f pg i) acc acc'"
    and fo: "fold (helperStep c f d va prot pg) js (b, acc, s) = (b', acc', s')"
  shows "b' = (b \<and> (\<forall>i \<in> set js. ram s (frameAddr c f i) = 0)) \<and> same_mem s s' \<and>
         scan_rel c (ram s) prot tgt (concat (map (subTables c (ram s) n f) js))
           (concat (map (subLinks c (ram s) n f) js)) (concat (map (subLeaves c (ram s) n f pg) js)) acc acc'"
  using fo
proof (induction js arbitrary: b acc s)
  case Nil
  then show ?case by simp
next
  case (Cons i js)
  obtain b1 acc1 s1 where s1: "helperStep c f d va prot pg i (b, acc, s) = (b1, acc1, s1)"
    by (metis prod_cases3)
  from step[OF s1] have b1: "b1 = (b \<and> ram s (frameAddr c f i) = 0)" and m1: "same_mem s s1"
    and r1: "scan_rel c (ram s) prot tgt (subTables c (ram s) n f i) (subLinks c (ram s) n f i)
        (subLeaves c (ram s) n f pg i) acc acc1" by simp_all
  have rs: "ram s1 = ram s" using m1 by (rule same_mem_ram)
  from Cons.prems have "fold (helperStep c f d va prot pg) js (b1, acc1, s1) = (b', acc', s')"
    by (simp add: s1)
  from Cons.IH[OF this] have b': "b' = (b1 \<and> (\<forall>i \<in> set js. ram s (frameAddr c f i) = 0))"
    and m2: "same_mem s1 s'"
    and r2: "scan_rel c (ram s) prot tgt (concat (map (subTables c (ram s) n f) js))
           (concat (map (subLinks c (ram s) n f) js)) (concat (map (subLeaves c (ram s) n f pg) js)) acc1 acc'"
    by (simp_all add: rs)
  from scan_rel_trans[OF r1 r2] b' b1 same_mem_trans[OF m1 m2] show ?case by auto
qed

lemma helper_rel_level:
  assumes IH: "\<And>m f pa pg acc s acc' s'. n = Suc m \<Longrightarrow>
      findNewFrameHelper c f pa (Suc d) va prot pg (acc, s) = (acc', s') \<Longrightarrow>
      scan_rel c (ram s) prot (va div 2 ^ OFFSET_WIDTH c) (tableList c (ram s) m f pa) (linkList c (ram s) m f)
        (leafList c (ram s) m f pg) acc acc' \<and> same_mem s s'"
    and d: "d + n + 1 = TABLES_DEPTH c"
    and h: "findNewFrameHelper c f pa d va prot pg (acc, s) = (acc', s')"
  shows "scan_rel c (ram s) prot (va div 2 ^ OFFSET_WIDTH c) (tableList c (ram s) n f pa) (linkList c (ram s) n f)
        (leafList c (ram s) n f pg) acc acc' \<and> same_mem s s'"
proof (cases "emptyFrame acc \<noteq> 0")
  case True
  then have "acc' = acc" "s' = s" using h by (simp_all add: helper_unfold)
  then show ?thesis using True by (simp add: scan_rel_def)
next
  case False
  let ?tgt = "va div 2 ^ OFFSET_WIDTH c"
  obtain b1 acc1 s1 where fo: "fold (helperStep c f d va prot pg) [0..<PAGE_SIZE c] (True, acc, s) = (b1, acc1, s1)"
    by (metis prod_cases3)
  have "b1 = (True \<and> (\<forall>i \<in> set [0..<PAGE_SIZE c]. ram s (frameAddr c f i) = 0)) \<and> same_mem s s1 \<and>
         scan_rel c (ram s) prot ?tgt (concat (map (subTables c (ram s) n f) [0..<PAGE_SIZE c]))
           (concat (map (subLinks c (ram s) n f) [0..<PAGE_SIZE c]))
           (concat (map (subLeaves c (ram s) n f pg) [0..<PAGE_SIZE c])) acc acc1"
    by (rule fold_rel[OF step_rel[OF IH d] fo]) 
  then have b1: "b1 = isEmptyFrame c (ram s) f" and m1: "same_mem s s1"
    and r1: "scan_rel c (ram s) prot ?tgt (concat (map (subTables c (ram s) n f) [0..<PAGE_SIZE c]))
           (linkList c (ram s) n f) (leafList c (ram s) n f pg) acc acc1"
    by (simp_all add: isEmptyFrame_def linkList_sub[symmetric] leafList_sub[symmetric])
  have res: "s' = s1 \<and> acc' = (if b1 \<and> f \<noteq> prot then acc1\<lparr>emptyFrame := f, emptyParentAdd := pa\<rparr> else acc1)"
    using h False fo by (auto simp: helper_unfold)
  show ?thesis
  proof (cases b1)
    case False
    then have "\<not> emptyCand c (ram s) prot (f, pa)" by (simp add: emptyCand_def b1)
    then show ?thesis using r1 res False m1
      by (simp add: tableList_sub[of c "ram s" n f pa] scan_rel_def)
  next
    case True
    then have z: "\<And>i. i < PAGE_SIZE c \<Longrightarrow> ram s (frameAddr c f i) = 0"
      by (simp add: b1 isEmptyFrame_def)
    have eT: "concat (map (subTables c (ram s) n f) [0..<PAGE_SIZE c]) = []"
      using z by (cases n) auto
    have eL: "linkList c (ram s) n f = []" unfolding linkList_sub using z by (cases n) auto
    have eF: "leafList c (ram s) n f pg = []" unfolding leafList_sub using z by (cases n) auto
    have ec: "emptyCand c (ram s) prot (f, pa) \<longleftrightarrow> f \<noteq> prot \<and> f \<noteq> 0"
      using True by (simp add: emptyCand_def b1)
    show ?thesis using r1 res True m1 \<open>\<not> emptyFrame acc \<noteq> 0\<close>
      by (auto simp: tableList_sub[of c "ram s" n f pa] eT eL eF ec scan_rel_def distTriple_def)
  qed
qed

lemma helper_rel:
  "d + n + 1 = TABLES_DEPTH c \<Longrightarrow> findNewFrameHelper c f pa d va prot pg (acc, s) = (acc', s') \<Longrightarrow>
   scan_rel c (ram s) prot (va div 2 ^ OFFSET_WIDTH c) (tableList c (ram s) n f pa) (linkList c (ram s) n f)
        (leafList c (ram s) n f pg) acc acc' \<and> same_mem s s'"
proof (induction n arbitrary: f pa d pg acc s acc' s')
  case 0
  show ?case by (rule helper_rel_level[OF _ "0.prems"]) simp
next
  case (Suc n)
  show ?case
  proof (rule helper_rel_level[OF _ Suc.prems])
    fix m f pa pg acc s acc' s'
    assume "Suc n = Suc m" and "findNewFrameHelper c f pa (Suc d) va prot pg (acc, s) = (acc', s')"
    then show "scan_rel c (ram s) prot (va div 2 ^ OFFSET_WIDTH c) (tableList c (ram s) m f pa) (linkList c (ram s) m f)
        (leafList c (ram s) m f pg) acc acc' \<and> same_mem s s'"
      using Suc.IH[of "Suc d" f pa pg acc s acc' s'] Suc.prems(1) by simp
  qed
qed

lemma effects_simps [simp]:
  "effects [] = []"
  "effects (EvRead a # es) = effects es"
  "effects (EvWrite a v # es) = EvWrite a v # effects es"
  "effects (EvEvict f p # es) = EvEvict f p # effects es"
  "effects (EvRestore f p # es) = EvRestore f p # effects es"
  "effects (EvAlloc q g # es) = EvAlloc q g # effects es"
  "effects (xs @ ys) = effects xs @ effects ys"
  by (simp_all add: effects_def)

lemma clearFrame_fold:
  "ram (fold (\<lambda>i s. PMwrite s (g i) 0) js s) = (\<lambda>a. if a \<in> set (map g js) then 0 else ram s a) \<and>
   swap (fold (\<lambda>i s. PMwrite s (g i) 0) js s) = swap s \<and>
   trace (fold (\<lambda>i s. PMwrite s (g i) 0) js s) = map (\<lambda>i. EvWrite (g i) 0) (rev js) @ trace s"
  by (induction js arbitrary: s) (auto simp: PMwrite_def)

lemma clearFrame_obs:
  "ram (clearFrame c s f) = clearedRam c (ram s) f"
  "swap (clearFrame c s f) = swap s"
  "trace (clearFrame c s f) = clearEvents c f @ trace s"
  using clearFrame_fold[of "\<lambda>i. (f * PAGE_SIZE c + i) mod 2 ^ 64" "[0..<PAGE_SIZE c]" s]
  by (simp_all add: clearFrame_def clearedRam_def clearEvents_def)

lemma effects_clearEvents [simp]: "effects (clearEvents c f) = clearEvents c f"
  by (simp add: clearEvents_def effects_def filter_map o_def)

lemma helper_root:
  assumes "1 \<le> TABLES_DEPTH c"
    and "findNewFrameHelper c 0 0 0 va prot 0 (scan_init, s) = (acc, s1)"
  shows "same_mem s s1 \<and>
     (case firstEmpty c (ram s) prot of
        Some x \<Rightarrow> emptyFrame acc = fst x \<and> emptyParentAdd acc = snd x \<and> fst x \<noteq> 0
      | None \<Rightarrow> emptyFrame acc = 0 \<and> maxFrame acc = maxUsed c (ram s) \<and>
                distTriple acc = evictionChoice c (ram s) va)"
proof -
  have "0 + (TABLES_DEPTH c - 1) + 1 = TABLES_DEPTH c" using assms(1) by simp
  from helper_rel[OF this assms(2)] show ?thesis
    by (auto simp: scan_rel_def scan_init_def firstEmpty_def maxUsed_def evictionChoice_def distTriple_def
        split: option.splits dest: find_emptyCand_nonzero)
qed

lemma findNewFrame_refines:
  assumes "1 \<le> TABLES_DEPTH c"
  shows "observe (findNewFrame c s va prot) = findNewFrame_spec c (ram s) (swap s) (effects (trace s)) va prot"
proof -
  obtain acc s1 where h: "findNewFrameHelper c 0 0 0 va prot 0 (scan_init, s) = (acc, s1)" by fastforce
  from helper_root[OF assms h] have m: "ram s1 = ram s" "swap s1 = swap s" "effects (trace s1) = effects (trace s)"
    and r: "(case firstEmpty c (ram s) prot of
        Some x \<Rightarrow> emptyFrame acc = fst x \<and> emptyParentAdd acc = snd x \<and> fst x \<noteq> 0
      | None \<Rightarrow> emptyFrame acc = 0 \<and> maxFrame acc = maxUsed c (ram s) \<and>
                distTriple acc = evictionChoice c (ram s) va)"
    by (simp_all add: same_mem_def)
  show ?thesis
  proof (cases "firstEmpty c (ram s) prot")
    case (Some x)
    then show ?thesis using r m
      by (cases x) (simp add: findNewFrame_def h observe_def findNewFrame_spec_def PMwrite_def)
  next
    case None
    then show ?thesis using r m
      by (cases "evictionChoice c (ram s) va")
        (simp add: findNewFrame_def h observe_def findNewFrame_spec_def PMwrite_def PMevict_def Let_def
          clearFrame_obs distTriple_def)
  qed
qed

section \<open>One iteration of the translation loop\<close>

lemma translateLoop_Suc:
  "translateLoop c va (Suc l) st = translateLoop c va l (translateStep c va (Suc l) st)"
  by (cases st) (simp add: translateStep_def Let_def split: prod.splits)

section \<open>Restores during a translation\<close>

lemma restores_effects: "restores (effects es) = restores es"
  by (induction es rule: restores.induct) simp_all

lemma restores_clearEvents: "restores (clearEvents c f @ es) = restores es"
proof -
  have "restores (map (\<lambda>i. EvWrite (g i) 0) js @ es) = restores es" for g js
    by (induction js) simp_all
  then show ?thesis by (simp add: clearEvents_def)
qed

lemma findNewFrame_restores:
  assumes "1 \<le> TABLES_DEPTH c"
  shows "restores (trace (snd (findNewFrame c s va prot))) = restores (trace s)"
proof -
  have "restores (trace (snd (findNewFrame c s va prot)))
        = restores (snd (snd (snd (observe (findNewFrame c s va prot)))))"
    by (simp add: observe_def restores_effects)
  also have "\<dots> = restores (effects (trace s))"
    unfolding findNewFrame_refines[OF assms]
    by (simp add: findNewFrame_spec_def restores_clearEvents split: option.splits prod.splits)
  finally show ?thesis by (simp add: restores_effects)
qed

lemma translateStep_restores:
  assumes "1 \<le> TABLES_DEPTH c"
  shows "restores (trace (snd (snd (translateStep c va l st)))) = restores (trace (snd (snd st)))"
  by (cases st)
     (auto simp: translateStep_def Let_def PMread_def PMwrite_def findNewFrame_restores[OF assms, simplified]
           split: prod.splits dest!: arg_cong[where f = "\<lambda>x. restores (trace (snd x))"])

lemma translateLoop_restores:
  assumes "1 \<le> TABLES_DEPTH c"
  shows "restores (trace (snd (snd (translateLoop c va l st)))) = restores (trace (snd (snd st)))"
proof (induction l arbitrary: st)
  case 0
  then show ?case by simp
next
  case (Suc l)
  show ?case unfolding translateLoop_Suc Suc.IH by (rule translateStep_restores[OF assms])
qed

text \<open>
  C4 (as amended). Every translation calls PMrestore exactly once: after the walk, on
  the frame the walk ended in and the page number of the address, whether the leaf entry
  was found mapped or had to be allocated; the walk itself, with its allocations, calls
  PMrestore never. The list of the restores logged grows by exactly that one call.
\<close>

theorem translate_restores_once:
  assumes "valid_config c"
  shows "restores (trace (snd (translateVirtualAdd c s va))) =
           (to_uint64 (fst (translateLoop c va (TABLES_DEPTH c) (0, 0, s))), va div 2 ^ OFFSET_WIDTH c)
           # restores (trace s)"
proof -
  have td: "1 \<le> TABLES_DEPTH c" using assms by (simp add: valid_config_def)
  obtain add1 cf s' where l: "translateLoop c va (TABLES_DEPTH c) (0, 0, s) = (add1, cf, s')"
    by (metis prod_cases3)
  have "restores (trace s') = restores (trace s)"
    using translateLoop_restores[OF td, of va "TABLES_DEPTH c" "(0, 0, s)"] by (simp add: l)
  then show ?thesis
    by (simp add: translateVirtualAdd_def l PMread_def PMrestore_def split: option.splits)
qed

lemma translateLoop_numeral:
  "translateLoop c va (numeral k) st = translateLoop c va (pred_numeral k) (translateStep c va (numeral k) st)"
  by (simp add: numeral_eq_Suc translateLoop_Suc)

lemmas eval_defs = translateLoop_numeral translateStep_def VMread_def VMwrite_def VMinitialize_def translateVirtualAdd_def
  findNewFrame_def helper_unfold helperStep_def clearFrame_def PMread_def PMwrite_def PMevict_def PMrestore_def
  pm_init_def scan_init_def getOffset_def getCyclicDist_def frameAddr_def to_uint64_def PAGE_SIZE_def
  NUM_PAGES_def VIRTUAL_MEMORY_SIZE_def TOTAL_BITS_NUM_def upt_rec

theorem translate_restores_once_witness:
  "valid_config c1 \<and>
   restores (trace (snd (translateVirtualAdd c1 pm_init 0))) = [(1, 0)]"
proof -
  have "fst (translateLoop c1 0 (TABLES_DEPTH c1) (0, 0, pm_init)) = 1"
    by (simp add: c1_def eval_defs)
  then show ?thesis using translate_restores_once[OF valid_c1, of pm_init 0] valid_c1
    by (simp add: to_uint64_def pm_init_def c1_def)
qed

text \<open>
  C4 as stated fails: after VMinitialize and VMread 0 in the configuration c1, page 0 is
  mapped (the leaf entry of the root holds frame 1), and translating address 0 again
  still calls PMrestore 1 0.
\<close>

theorem restore_on_mapped_page:
  "ram mapped_state (frameAddr c1 0 (getOffset c1 (0 div 2 ^ OFFSET_WIDTH c1))) = 1 \<and>
   restores (trace (snd (translateVirtualAdd c1 mapped_state 0))) = (1, 0) # restores (trace mapped_state)"
  unfolding mapped_state_def by (simp add: c1_def eval_defs)

section \<open>The eviction tier\<close>

lemma leafList_nonzero: "x \<in> set (leafList c r n f pg) \<Longrightarrow> fst x \<noteq> 0"
  by (induction n arbitrary: f pg) (auto split: if_splits)

lemma foldl_leafStep_first_max:
  assumes "L \<noteq> []" and "\<forall>x \<in> set L. fst x \<noteq> 0"
  shows "\<exists>k < length L. foldl (leafStep c (va div 2 ^ OFFSET_WIDTH c)) (0, 0, 0) L = L ! k \<and>
           (\<forall>j < length L. leafDist c va (L ! j) \<le> leafDist c va (L ! k)) \<and>
           (\<forall>j < k. leafDist c va (L ! j) < leafDist c va (L ! k))"
  using assms
proof (induction L rule: rev_induct)
  case Nil
  then show ?case by simp
next
  case (snoc x xs)
  let ?t = "va div 2 ^ OFFSET_WIDTH c"
  show ?case
  proof (cases "xs = []")
    case True
    then have "foldl (leafStep c ?t) (0, 0, 0) (xs @ [x]) = x"
      by (cases x) (simp add: leafStep_def)
    then show ?thesis using True by simp
  next
    case False
    with snoc obtain k where k: "k < length xs" "foldl (leafStep c ?t) (0, 0, 0) xs = xs ! k"
      "\<forall>j < length xs. leafDist c va (xs ! j) \<le> leafDist c va (xs ! k)"
      "\<forall>j < k. leafDist c va (xs ! j) < leafDist c va (xs ! k)" by auto
    have nz: "fst (xs ! k) \<noteq> 0" using snoc.prems(2) k(1) by simp
    show ?thesis
    proof (cases "leafDist c va x > leafDist c va (xs ! k)")
      case True
      then have "foldl (leafStep c ?t) (0, 0, 0) (xs @ [x]) = (xs @ [x]) ! length xs"
        by (cases x; cases "xs ! k") (simp add: k(2) leafStep_def leafDist_def)
      moreover have "\<forall>j < length (xs @ [x]). leafDist c va ((xs @ [x]) ! j) \<le> leafDist c va ((xs @ [x]) ! length xs)"
        using True k(3) by (auto simp: nth_append less_Suc_eq intro: order.trans less_imp_le)
      moreover have "\<forall>j < length xs. leafDist c va ((xs @ [x]) ! j) < leafDist c va ((xs @ [x]) ! length xs)"
        using True k(3) by (auto simp: nth_append intro: le_less_trans)
      ultimately show ?thesis by (intro exI[of _ "length xs"]) simp
    next
      case False
      then have "foldl (leafStep c ?t) (0, 0, 0) (xs @ [x]) = (xs @ [x]) ! k"
        using nz k(1) by (cases x; cases "xs ! k") (simp add: k(2) leafStep_def leafDist_def nth_append)
      moreover have "\<forall>j < length (xs @ [x]). leafDist c va ((xs @ [x]) ! j) \<le> leafDist c va ((xs @ [x]) ! k)"
        using False k(1) k(3) by (auto simp: nth_append less_Suc_eq)
      moreover have "\<forall>j < k. leafDist c va ((xs @ [x]) ! j) < leafDist c va ((xs @ [x]) ! k)"
        using k(1) k(4) by (auto simp: nth_append)
      ultimately show ?thesis using k(1) by (intro exI[of _ k]) simp
    qed
  qed
qed

lemma valid_c4: "valid_config c4"
  by (simp add: valid_config_def c4_def PAGE_SIZE_def)

lemma ram_tie_state: "ram tie_state = (\<lambda>_. 0)(1 := 1, 3 := 2)"
  unfolding tie_state_def by (rule ext) (simp add: c4_def eval_defs)

lemmas list_defs = isEmptyFrame_def emptyCand_def firstEmpty_def maxUsed_def evictionChoice_def
  leafStep_def leafDist_def clearedRam_def clearEvents_def findNewFrame_spec_def

lemma valid_c2: "valid_config c2"
  by (simp add: valid_config_def c2_def PAGE_SIZE_def)

lemma valid_c3: "valid_config c3"
  by (simp add: valid_config_def c3_def PAGE_SIZE_def)

section \<open>Evictions in the log\<close>



section \<open>The fresh-index tier writes nothing\<close>

text \<open>
  C10. When findNewFrame returns through the fresh-index tier (no empty table frame,
  maxUsed + 1 < NUM_FRAMES) it returns maxUsed + 1 and leaves the memory and the backing
  storage as they are: no word is written. The iteration of the translator that called
  it then writes one word only, the entry that links the frame. So the contents of the
  new frame are what the physical memory held before; the witness starts from a memory
  with a nonzero word in frame 1 and finds it there after the frame has been linked as
  a table.
\<close>

theorem fresh_frame_not_cleared:
  assumes "valid_config c"
    and "firstEmpty c (ram s) add1 = None"
    and "maxUsed c (ram s) + 1 < int (NUM_FRAMES c)"
    and "ram s (frameAddr c add1 (getOffset c (va div 2 ^ (level * OFFSET_WIDTH c)))) = 0"
  shows "observe (findNewFrame c s va add1) =
           (maxUsed c (ram s) + 1, ram s, swap s, EvAlloc add1 (maxUsed c (ram s) + 1) # effects (trace s)) \<and>
         fst (translateStep c va level (add1, currFrame, s)) = maxUsed c (ram s) + 1 \<and>
         ram (snd (snd (translateStep c va level (add1, currFrame, s)))) =
           (ram s)(frameAddr c add1 (getOffset c (va div 2 ^ (level * OFFSET_WIDTH c))) := maxUsed c (ram s) + 1)"
proof -
  have td: "1 \<le> TABLES_DEPTH c" using assms(1) by (simp add: valid_config_def)
  let ?a = "frameAddr c add1 (getOffset c (va div 2 ^ (level * OFFSET_WIDTH c)))"
  let ?s1 = "s\<lparr>trace := EvRead ?a # trace s\<rparr>"
  have o: "observe (findNewFrame c t va add1) =
           (maxUsed c (ram s) + 1, ram s, swap t, EvAlloc add1 (maxUsed c (ram s) + 1) # effects (trace t))"
    if "ram t = ram s" for t
    unfolding findNewFrame_refines[OF td] using assms(2,3) that by (simp add: findNewFrame_spec_def)
  obtain f s2 where f: "findNewFrame c ?s1 va add1 = (f, s2)" by fastforce
  from o[of ?s1] have "f = maxUsed c (ram s) + 1" "ram s2 = ram s"
    by (simp_all add: f observe_def)
  then have "fst (translateStep c va level (add1, currFrame, s)) = maxUsed c (ram s) + 1"
    and "ram (snd (snd (translateStep c va level (add1, currFrame, s)))) = (ram s)(?a := maxUsed c (ram s) + 1)"
    using assms(4) by (simp_all add: translateStep_def Let_def PMread_def PMwrite_def f)
  then show ?thesis using o[of s] by simp
qed

theorem fresh_frame_not_cleared_witness:
  "valid_config c2 \<and> firstEmpty c2 (ram garbage_state) 0 = None \<and>
   maxUsed c2 (ram garbage_state) + 1 < int (NUM_FRAMES c2) \<and>
   ram garbage_state (frameAddr c2 0 (getOffset c2 (0 div 2 ^ (2 * OFFSET_WIDTH c2)))) = 0 \<and>
   fst (translateStep c2 0 2 (0, 0, garbage_state)) = 1 \<and>
   ram (snd (snd (translateStep c2 0 2 (0, 0, garbage_state)))) 2 = 5"
proof -
  have e: "firstEmpty c2 (ram garbage_state) 0 = None"
    by (simp add: garbage_state_def c2_def list_defs frameAddr_def to_uint64_def PAGE_SIZE_def upt_rec)
  have m: "maxUsed c2 (ram garbage_state) = 0"
    by (simp add: garbage_state_def c2_def list_defs frameAddr_def to_uint64_def PAGE_SIZE_def upt_rec)
  then have m': "maxUsed c2 (ram garbage_state) + 1 < int (NUM_FRAMES c2)" by (simp add: c2_def)
  have z: "ram garbage_state (frameAddr c2 0 (getOffset c2 (0 div 2 ^ (2 * OFFSET_WIDTH c2)))) = 0"
    by (simp add: garbage_state_def c2_def getOffset_def frameAddr_def to_uint64_def PAGE_SIZE_def TOTAL_BITS_NUM_def)
  have a: "frameAddr c2 0 (getOffset c2 (0 div 2 ^ (2 * OFFSET_WIDTH c2))) = 0"
    by (simp add: c2_def getOffset_def frameAddr_def to_uint64_def PAGE_SIZE_def TOTAL_BITS_NUM_def)
  note t = fresh_frame_not_cleared[OF valid_c2 e m' z, of 0]
  have g: "ram garbage_state 2 = 5" by (simp add: garbage_state_def)
  from t have "fst (translateStep c2 0 2 (0, 0, garbage_state)) = maxUsed c2 (ram garbage_state) + 1"
    by blast
  then have r1: "fst (translateStep c2 0 2 (0, 0, garbage_state)) = 1" unfolding m by simp
  from t have "ram (snd (snd (translateStep c2 0 2 (0, 0, garbage_state)))) =
           (ram garbage_state)(frameAddr c2 0 (getOffset c2 (0 div 2 ^ (2 * OFFSET_WIDTH c2)))
              := maxUsed c2 (ram garbage_state) + 1)"
    by blast
  then have "ram (snd (snd (translateStep c2 0 2 (0, 0, garbage_state)))) 2 = 5"
    unfolding a using g by simp
  with r1 have "fst (translateStep c2 0 2 (0, 0, garbage_state)) = 1"
    and "ram (snd (snd (translateStep c2 0 2 (0, 0, garbage_state)))) 2 = 5" by simp_all
  then show ?thesis using valid_c2 e m' z by simp
qed


section \<open>Walking paths\<close>

lemma vp_simps [simp]: "vp c []" "vp c (i # p) \<longleftrightarrow> i < PAGE_SIZE c \<and> vp c p"
  "vp c (p @ q) \<longleftrightarrow> vp c p \<and> vp c q"
  by (auto simp: vp_def)

lemma walk_append:
  "walk c r f (p @ q) = (if p \<noteq> [] \<and> walk c r f p = 0 then 0 else walk c r (walk c r f p) q)"
  by (induction p arbitrary: f) auto

lemma walk_zero_ext: "p \<noteq> [] \<Longrightarrow> walk c r f p = 0 \<Longrightarrow> walk c r f (p @ q) = 0"
  by (simp add: walk_append)

lemma walk_snoc:
  "walk c r f (p @ [i]) =
     (if p \<noteq> [] \<and> walk c r f p = 0 then 0 else r (frameAddr c (walk c r f p) i))"
  by (simp add: walk_append)

lemma in_concat_upt: "x \<in> set (concat (map g [0..<n])) \<longleftrightarrow> (\<exists>i < n. x \<in> set (g i))"
  by auto

lemma entryAddr_Cons:
  "r (frameAddr c f i) \<noteq> 0 \<Longrightarrow> p \<noteq> [] \<Longrightarrow>
   entryAddr c r f (i # p) = entryAddr c r (r (frameAddr c f i)) p"
  by (simp add: entryAddr_def)

lemma entryAddr_single: "entryAddr c r f [i] = frameAddr c f i"
  by (simp add: entryAddr_def)

lemma linkList_iff:
  "v \<in> set (linkList c r n f) \<longleftrightarrow>
     (\<exists>p. vp c p \<and> p \<noteq> [] \<and> length p \<le> Suc n \<and> walk c r f p = v \<and> v \<noteq> 0)"
proof (induction n arbitrary: f)
  case 0
  show ?case
  proof
    assume "v \<in> set (linkList c r 0 f)"
    then obtain i where "i < PAGE_SIZE c" "r (frameAddr c f i) = v" "v \<noteq> 0"
      by (auto simp: in_concat_upt split: if_splits)
    then show "\<exists>p. vp c p \<and> p \<noteq> [] \<and> length p \<le> Suc 0 \<and> walk c r f p = v \<and> v \<noteq> 0"
      by (intro exI[of _ "[i]"]) simp
  next
    assume "\<exists>p. vp c p \<and> p \<noteq> [] \<and> length p \<le> Suc 0 \<and> walk c r f p = v \<and> v \<noteq> 0"
    then obtain p where p: "vp c p" "p \<noteq> []" "length p \<le> Suc 0" "walk c r f p = v" "v \<noteq> 0" by blast
    then obtain i where "p = [i]" by (cases p) auto
    with p show "v \<in> set (linkList c r 0 f)"
      by (auto simp: in_concat_upt split: if_splits)
  qed
next
  case (Suc n)
  show ?case
  proof
    assume "v \<in> set (linkList c r (Suc n) f)"
    then obtain i where i: "i < PAGE_SIZE c" "r (frameAddr c f i) \<noteq> 0"
      "v = r (frameAddr c f i) \<or> v \<in> set (linkList c r n (r (frameAddr c f i)))"
      by (auto simp: in_concat_upt split: if_splits)
    from i(3) show "\<exists>p. vp c p \<and> p \<noteq> [] \<and> length p \<le> Suc (Suc n) \<and> walk c r f p = v \<and> v \<noteq> 0"
    proof
      assume "v = r (frameAddr c f i)"
      with i show ?thesis by (intro exI[of _ "[i]"]) simp
    next
      assume "v \<in> set (linkList c r n (r (frameAddr c f i)))"
      then obtain p where "vp c p" "p \<noteq> []" "length p \<le> Suc n" "walk c r (r (frameAddr c f i)) p = v" "v \<noteq> 0"
        using Suc.IH by blast
      with i show ?thesis by (intro exI[of _ "i # p"]) simp
    qed
  next
    assume "\<exists>p. vp c p \<and> p \<noteq> [] \<and> length p \<le> Suc (Suc n) \<and> walk c r f p = v \<and> v \<noteq> 0"
    then obtain p where p: "vp c p" "p \<noteq> []" "length p \<le> Suc (Suc n)" "walk c r f p = v" "v \<noteq> 0" by blast
    then obtain i q where pq: "p = i # q" by (cases p) auto
    with p have i: "i < PAGE_SIZE c" "r (frameAddr c f i) \<noteq> 0" "vp c q" "length q \<le> Suc n"
      "walk c r (r (frameAddr c f i)) q = v"
      by (auto split: if_splits)
    show "v \<in> set (linkList c r (Suc n) f)"
    proof (cases "q = []")
      case True
      with i show ?thesis by (auto simp: in_concat_upt)
    next
      case False
      with i p(5) have "v \<in> set (linkList c r n (r (frameAddr c f i)))"
        using Suc.IH by blast
      with i show ?thesis by (auto simp: in_concat_upt)
    qed
  qed
qed

lemma pageFrom_Cons: "pageFrom c pg (i # p) = pageFrom c (pg * 2 ^ OFFSET_WIDTH c + i) p"
  by (simp add: pageFrom_def)

lemma leafList_iff:
  "(v, pa, pg) \<in> set (leafList c r n f pg0) \<longleftrightarrow>
     (\<exists>p. vp c p \<and> length p = Suc n \<and> walk c r f p = v \<and> v \<noteq> 0 \<and>
          pa = entryAddr c r f p \<and> pg = pageFrom c pg0 p)"
proof (induction n arbitrary: f pg0)
  case 0
  show ?case
  proof
    assume "(v, pa, pg) \<in> set (leafList c r 0 f pg0)"
    then obtain i where "i < PAGE_SIZE c" "r (frameAddr c f i) = v" "v \<noteq> 0"
      "pa = frameAddr c f i" "pg = pg0 * 2 ^ OFFSET_WIDTH c + i"
      by (auto simp: in_concat_upt split: if_splits)
    then show "\<exists>p. vp c p \<and> length p = Suc 0 \<and> walk c r f p = v \<and> v \<noteq> 0 \<and>
          pa = entryAddr c r f p \<and> pg = pageFrom c pg0 p"
      by (intro exI[of _ "[i]"]) (simp add: entryAddr_single pageFrom_def)
  next
    assume "\<exists>p. vp c p \<and> length p = Suc 0 \<and> walk c r f p = v \<and> v \<noteq> 0 \<and>
          pa = entryAddr c r f p \<and> pg = pageFrom c pg0 p"
    then obtain p where p: "vp c p" "length p = Suc 0" "walk c r f p = v" "v \<noteq> 0"
      "pa = entryAddr c r f p" "pg = pageFrom c pg0 p" by blast
    then obtain i where "p = [i]" by (cases p) auto
    with p show "(v, pa, pg) \<in> set (leafList c r 0 f pg0)"
      by (auto simp: in_concat_upt entryAddr_single pageFrom_def split: if_splits)
  qed
next
  case (Suc n)
  show ?case
  proof
    assume "(v, pa, pg) \<in> set (leafList c r (Suc n) f pg0)"
    then obtain i where i: "i < PAGE_SIZE c" "r (frameAddr c f i) \<noteq> 0"
      "(v, pa, pg) \<in> set (leafList c r n (r (frameAddr c f i)) (pg0 * 2 ^ OFFSET_WIDTH c + i))"
      by (auto simp: in_concat_upt split: if_splits)
    then obtain p where p: "vp c p" "length p = Suc n" "walk c r (r (frameAddr c f i)) p = v" "v \<noteq> 0"
      "pa = entryAddr c r (r (frameAddr c f i)) p" "pg = pageFrom c (pg0 * 2 ^ OFFSET_WIDTH c + i) p"
      using Suc.IH by blast
    then have "p \<noteq> []" by auto
    with i p show "\<exists>p. vp c p \<and> length p = Suc (Suc n) \<and> walk c r f p = v \<and> v \<noteq> 0 \<and>
          pa = entryAddr c r f p \<and> pg = pageFrom c pg0 p"
      by (intro exI[of _ "i # p"]) (simp add: entryAddr_Cons pageFrom_Cons)
  next
    assume "\<exists>p. vp c p \<and> length p = Suc (Suc n) \<and> walk c r f p = v \<and> v \<noteq> 0 \<and>
          pa = entryAddr c r f p \<and> pg = pageFrom c pg0 p"
    then obtain p where p: "vp c p" "length p = Suc (Suc n)" "walk c r f p = v" "v \<noteq> 0"
      "pa = entryAddr c r f p" "pg = pageFrom c pg0 p" by blast
    then obtain i q where pq: "p = i # q" by (cases p) auto
    with p have i: "i < PAGE_SIZE c" "r (frameAddr c f i) \<noteq> 0" "vp c q" "length q = Suc n"
      "walk c r (r (frameAddr c f i)) q = v"
      by (auto split: if_splits)
    then have "q \<noteq> []" by auto
    with i p pq have "(v, pa, pg) \<in> set (leafList c r n (r (frameAddr c f i)) (pg0 * 2 ^ OFFSET_WIDTH c + i))"
      using Suc.IH[of "r (frameAddr c f i)" "pg0 * 2 ^ OFFSET_WIDTH c + i"]
      by (auto simp: entryAddr_Cons pageFrom_Cons)
    with i show "(v, pa, pg) \<in> set (leafList c r (Suc n) f pg0)"
      by (auto simp: in_concat_upt)
  qed
qed

lemma tableList_iff:
  "(t, pa) \<in> set (tableList c r n f pa0) \<longleftrightarrow>
     (t = f \<and> pa = pa0) \<or>
     (\<exists>p. vp c p \<and> p \<noteq> [] \<and> length p \<le> n \<and> walk c r f p = t \<and> t \<noteq> 0 \<and> pa = entryAddr c r f p)"
proof (induction n arbitrary: f pa0)
  case 0
  show ?case by auto
next
  case (Suc n)
  show ?case
  proof
    assume "(t, pa) \<in> set (tableList c r (Suc n) f pa0)"
    then consider "t = f \<and> pa = pa0" |
      i where "i < PAGE_SIZE c" "r (frameAddr c f i) \<noteq> 0"
        "(t, pa) \<in> set (tableList c r n (r (frameAddr c f i)) (frameAddr c f i))"
      by (auto simp: in_concat_upt split: if_splits)
    then show "(t = f \<and> pa = pa0) \<or>
      (\<exists>p. vp c p \<and> p \<noteq> [] \<and> length p \<le> Suc n \<and> walk c r f p = t \<and> t \<noteq> 0 \<and> pa = entryAddr c r f p)"
    proof cases
      case 1
      then show ?thesis by simp
    next
      case outer: (2 i)
      from outer(3) consider "t = r (frameAddr c f i) \<and> pa = frameAddr c f i" |
        p where "vp c p" "p \<noteq> []" "length p \<le> n" "walk c r (r (frameAddr c f i)) p = t" "t \<noteq> 0"
          "pa = entryAddr c r (r (frameAddr c f i)) p"
        using Suc.IH by blast
      then show ?thesis
      proof cases
        case 1
        with outer have "vp c [i] \<and> [i] \<noteq> [] \<and> length [i] \<le> Suc n \<and> walk c r f [i] = t \<and> t \<noteq> 0 \<and>
           pa = entryAddr c r f [i]"
          by (simp add: entryAddr_single)
        then show ?thesis by blast
      next
        case inner: (2 p)
        with outer have "vp c (i # p) \<and> i # p \<noteq> [] \<and> length (i # p) \<le> Suc n \<and> walk c r f (i # p) = t \<and> t \<noteq> 0 \<and>
           pa = entryAddr c r f (i # p)"
          by (simp add: entryAddr_Cons)
        then show ?thesis by blast
      qed
    qed
  next
    assume "(t = f \<and> pa = pa0) \<or>
      (\<exists>p. vp c p \<and> p \<noteq> [] \<and> length p \<le> Suc n \<and> walk c r f p = t \<and> t \<noteq> 0 \<and> pa = entryAddr c r f p)"
    then show "(t, pa) \<in> set (tableList c r (Suc n) f pa0)"
    proof
      assume "t = f \<and> pa = pa0"
      then show ?thesis by simp
    next
      assume "\<exists>p. vp c p \<and> p \<noteq> [] \<and> length p \<le> Suc n \<and> walk c r f p = t \<and> t \<noteq> 0 \<and> pa = entryAddr c r f p"
      then obtain p where p: "vp c p" "p \<noteq> []" "length p \<le> Suc n" "walk c r f p = t" "t \<noteq> 0"
        "pa = entryAddr c r f p" by blast
      then obtain i q where pq: "p = i # q" by (cases p) auto
      with p have i: "i < PAGE_SIZE c" "r (frameAddr c f i) \<noteq> 0" "vp c q" "length q \<le> n"
        "walk c r (r (frameAddr c f i)) q = t"
        by (auto split: if_splits)
      have "(t, pa) \<in> set (tableList c r n (r (frameAddr c f i)) (frameAddr c f i))"
      proof (cases "q = []")
        case True
        with i p pq have "t = r (frameAddr c f i) \<and> pa = frameAddr c f i"
          by (simp add: entryAddr_single)
        then show ?thesis using Suc.IH by blast
      next
        case False
        with i p pq have "vp c q \<and> q \<noteq> [] \<and> length q \<le> n \<and> walk c r (r (frameAddr c f i)) q = t \<and> t \<noteq> 0 \<and>
          pa = entryAddr c r (r (frameAddr c f i)) q"
          by (simp add: entryAddr_Cons)
        then show ?thesis using Suc.IH by blast
      qed
      with i show ?thesis by (auto simp: in_concat_upt)
    qed
  qed
qed

section \<open>Frame addresses\<close>

lemma PAGE_SIZE_pos [simp]: "0 < PAGE_SIZE c"
  by (simp add: PAGE_SIZE_def)

lemma getOffset_mod:
  assumes "OFFSET_WIDTH c \<le> 64"
  shows "getOffset c x = x mod PAGE_SIZE c"
proof -
  define K :: nat where "K = 2 ^ (64 - OFFSET_WIDTH c)"
  define W :: nat where "W = 2 ^ OFFSET_WIDTH c"
  have "(2::nat) ^ 64 = 2 ^ ((64 - OFFSET_WIDTH c) + OFFSET_WIDTH c)" using assms by simp
  also have "\<dots> = K * W" unfolding K_def W_def by (rule power_add)
  finally have e: "(2::nat) ^ 64 = K * W" .
  have K0: "K \<noteq> 0" by (simp add: K_def)
  have "(x * K) mod (K * W) = (K * x) mod (K * W)" by (simp only: mult.commute[of x K])
  also have "\<dots> = K * (x mod W)" by (rule mult_mod_right[symmetric])
  finally have "((x * K) mod (K * W)) div K = x mod W" using K0 by simp
  then have "((x * K) mod 2 ^ 64) div K = x mod W" by (simp only: e)
  moreover have "getOffset c x = ((x * K) mod 2 ^ 64) div K"
    unfolding getOffset_def TOTAL_BITS_NUM_def Let_def K_def ..
  ultimately show ?thesis by (simp only: PAGE_SIZE_def W_def)
qed

lemma valid_OFFSET_WIDTH: "valid_config c \<Longrightarrow> OFFSET_WIDTH c \<le> 64"
proof -
  assume "valid_config c"
  then have "(TABLES_DEPTH c + 1) * OFFSET_WIDTH c < 63" "1 \<le> TABLES_DEPTH c"
    by (auto simp: valid_config_def)
  then have "OFFSET_WIDTH c \<le> (TABLES_DEPTH c + 1) * OFFSET_WIDTH c" by simp
  with \<open>(TABLES_DEPTH c + 1) * OFFSET_WIDTH c < 63\<close> show ?thesis by linarith
qed

lemma getOffset_valid: "valid_config c \<Longrightarrow> getOffset c x = x mod PAGE_SIZE c"
  by (rule getOffset_mod[OF valid_OFFSET_WIDTH])

lemma getOffset_less: "valid_config c \<Longrightarrow> getOffset c x < PAGE_SIZE c"
  by (simp add: getOffset_valid)

lemma frame_lt:
  fixes P :: nat
  assumes "n < m" "i < P"
  shows "n * P + i < m * P"
proof -
  have "n * P + i < n * P + P" using assms(2) by simp
  also have "\<dots> = Suc n * P" by simp
  also have "\<dots> \<le> m * P" using assms(1) by (intro mult_le_mono1) simp
  finally show ?thesis .
qed

lemma addr_inj:
  fixes P :: nat
  assumes "i < P" "j < P" "n * P + i = m * P + j"
  shows "n = m \<and> i = j"
proof -
  have "n = m"
  proof (rule ccontr)
    assume "n \<noteq> m"
    then consider "n < m" | "m < n" by linarith
    then show False
    proof cases
      case 1
      from frame_lt[OF 1 assms(1)] assms(3) show False by simp
    next
      case 2
      from frame_lt[OF 2 assms(2)] assms(3) show False by simp
    qed
  qed
  then show ?thesis using assms(3) by simp
qed

lemma addr_in_frame:
  fixes P :: nat
  assumes "j < P"
  shows "n * P \<le> m * P + j \<and> m * P + j < n * P + P \<longleftrightarrow> m = n"
proof
  assume a: "n * P \<le> m * P + j \<and> m * P + j < n * P + P"
  show "m = n"
  proof (rule ccontr)
    assume "m \<noteq> n"
    then consider "n < m" | "m < n" by linarith
    then show False
    proof cases
      case 1
      then have "Suc n * P \<le> m * P" by (intro mult_le_mono1) simp
      then show False using a by simp
    next
      case 2
      from frame_lt[OF 2 assms] a show False by simp
    qed
  qed
next
  assume "m = n" then show "n * P \<le> m * P + j \<and> m * P + j < n * P + P" using assms by simp
qed

lemma frame_addr_lt64:
  assumes "valid_config c" "i < PAGE_SIZE c" "n < NUM_FRAMES c"
  shows "n * PAGE_SIZE c + i < 2 ^ 64"
proof -
  have "n * PAGE_SIZE c + i < NUM_FRAMES c * PAGE_SIZE c"
    using assms(3,2) by (rule frame_lt)
  also have "\<dots> \<le> 2 ^ 63" using assms(1) by (simp add: valid_config_def)
  also have "\<dots> < (2::nat) ^ 64" by simp
  finally show ?thesis .
qed

lemma int_mod_2_64: "x < 2 ^ 64 \<Longrightarrow> nat (int x mod 2 ^ 64) = x"
proof -
  assume "x < 2 ^ 64"
  have "int x mod 2 ^ 64 = int (x mod 2 ^ 64)" by (simp add: zmod_int)
  then show ?thesis using \<open>x < 2 ^ 64\<close> by simp
qed

lemma frameAddr_nat:
  assumes "valid_config c" "i < PAGE_SIZE c" "n < NUM_FRAMES c"
  shows "frameAddr c (int n) i = n * PAGE_SIZE c + i"
proof -
  have "int n * int (PAGE_SIZE c) + int i = int (n * PAGE_SIZE c + i)" by simp
  then have "frameAddr c (int n) i = nat (int (n * PAGE_SIZE c + i) mod 2 ^ 64)"
    unfolding frameAddr_def to_uint64_def by (simp only:)
  also have "\<dots> = n * PAGE_SIZE c + i"
    by (rule int_mod_2_64[OF frame_addr_lt64[OF assms]])
  finally show ?thesis .
qed

lemma to_uint64_nat:
  assumes "valid_config c" "n < NUM_FRAMES c"
  shows "to_uint64 (int n) = n"
proof -
  have "n * PAGE_SIZE c + 0 < 2 ^ 64" by (rule frame_addr_lt64[OF assms(1) _ assms(2)]) simp
  moreover have "n \<le> n * PAGE_SIZE c" using PAGE_SIZE_pos[of c] by (cases "PAGE_SIZE c") simp_all
  ultimately have "n < 2 ^ 64" by linarith
  then show ?thesis unfolding to_uint64_def by (rule int_mod_2_64)
qed

section \<open>Paths and the tree invariant\<close>

lemma frameAddr_int:
  assumes "valid_config c" "0 \<le> g" "g < int (NUM_FRAMES c)" "i < PAGE_SIZE c"
  shows "frameAddr c g i = nat g * PAGE_SIZE c + i"
proof -
  have "nat g < NUM_FRAMES c" using assms(2,3) by linarith
  from frameAddr_nat[OF assms(1,4) this] assms(2) show ?thesis by simp
qed

lemma frameAddr_inj:
  assumes "valid_config c" "0 \<le> g" "g < int (NUM_FRAMES c)" "i < PAGE_SIZE c"
    "0 \<le> h" "h < int (NUM_FRAMES c)" "j < PAGE_SIZE c"
    "frameAddr c g i = frameAddr c h j"
  shows "g = h \<and> i = j"
proof -
  have "nat g * PAGE_SIZE c + i = nat h * PAGE_SIZE c + j"
    using assms(8) frameAddr_int[OF assms(1-4)] frameAddr_int[OF assms(1,5-7)] by simp
  from addr_inj[OF assms(4,7) this] assms(2,5) show ?thesis by auto
qed

lemma tablePath_mapped: "tablePath c r p \<Longrightarrow> p \<noteq> [] \<Longrightarrow> mappedPath c r p"
  by (auto simp: tablePath_def mappedPath_def)

lemma tree_inv_table_frame:
  assumes "tree_inv c r m H" "tablePath c r p"
  shows "0 \<le> walk c r 0 p \<and> walk c r 0 p < int (NUM_FRAMES c) \<and> walk c r 0 p \<le> m \<and> walk c r 0 p \<notin> H"
proof (cases "p = []")
  case True
  then show ?thesis using assms(1) by (auto simp: tree_inv_def)
next
  case False
  then have "mappedPath c r p" using assms(2) by (rule tablePath_mapped[rotated])
  then show ?thesis using assms(1) unfolding tree_inv_def by force
qed

lemma tree_inv_table_inj:
  assumes "tree_inv c r m H" "tablePath c r p" "tablePath c r q" "walk c r 0 p = walk c r 0 q"
  shows "p = q"
proof (cases "p = []")
  case True
  then have "walk c r 0 q = 0" using assms(4) by simp
  then show ?thesis using assms(3) True by (auto simp: tablePath_def)
next
  case False
  then have mp: "mappedPath c r p" using assms(2) by (rule tablePath_mapped[rotated])
  then have "walk c r 0 q \<noteq> 0" using assms(4) by (simp add: mappedPath_def)
  then have "q \<noteq> []" by auto
  then have "mappedPath c r q" using assms(3) by (rule tablePath_mapped[rotated])
  with mp assms(1,4) show ?thesis unfolding tree_inv_def by blast
qed

lemma table_entry_unique:
  assumes "valid_config c" "tree_inv c r m H" "tablePath c r p" "tablePath c r q"
    "i < PAGE_SIZE c" "j < PAGE_SIZE c"
    "frameAddr c (walk c r 0 p) i = frameAddr c (walk c r 0 q) j"
  shows "p = q \<and> i = j"
proof -
  note fp = tree_inv_table_frame[OF assms(2,3)] and fq = tree_inv_table_frame[OF assms(2,4)]
  have "walk c r 0 p = walk c r 0 q \<and> i = j"
    using frameAddr_inj[OF assms(1) _ _ assms(5) _ _ assms(6) assms(7)] fp fq by blast
  then show ?thesis using tree_inv_table_inj[OF assms(2,3,4)] by blast
qed

lemma tablePath_prefix:
  assumes "tablePath c r (p @ q)"
  shows "tablePath c r p"
proof (cases "p = []")
  case True
  then show ?thesis using assms by (simp add: tablePath_def)
next
  case False
  have "walk c r 0 p \<noteq> 0"
  proof
    assume "walk c r 0 p = 0"
    then have "walk c r 0 (p @ q) = 0" using False by (simp add: walk_append)
    then show False using assms False by (auto simp: tablePath_def)
  qed
  then show ?thesis using assms by (auto simp: tablePath_def)
qed

lemma walk_agree:
  assumes agree: "\<And>q i. tablePath c r q \<Longrightarrow> i < PAGE_SIZE c \<Longrightarrow>
      r' (frameAddr c (walk c r 0 q) i) = r (frameAddr c (walk c r 0 q) i)"
  shows "vp c p \<Longrightarrow> length p \<le> TABLES_DEPTH c \<Longrightarrow> walk c r' 0 p = walk c r 0 p"
proof (induction p rule: rev_induct)
  case Nil
  then show ?case by simp
next
  case (snoc i p)
  then have ih: "walk c r' 0 p = walk c r 0 p" and i: "i < PAGE_SIZE c" and vp: "vp c p"
    and len: "length p < TABLES_DEPTH c" by auto
  show ?case
  proof (cases "p \<noteq> [] \<and> walk c r 0 p = 0")
    case True
    then show ?thesis by (simp add: walk_snoc ih)
  next
    case False
    then have "tablePath c r p" using vp len by (auto simp: tablePath_def)
    from agree[OF this i] False show ?thesis by (auto simp: walk_snoc ih)
  qed
qed

lemma walk_detach_gen:
  assumes v: "valid_config c" and t: "tree_inv c r m H" and q0: "tablePath c r q0" and i0: "i0 < PAGE_SIZE c"
    and r0: "r' (frameAddr c (walk c r 0 q0) i0) = 0"
    and r1: "\<And>a. a \<noteq> frameAddr c (walk c r 0 q0) i0 \<Longrightarrow> r' a = r a"
  shows "vp c p \<Longrightarrow> length p \<le> TABLES_DEPTH c \<Longrightarrow>
         walk c r' 0 p = (if prefix (q0 @ [i0]) p then 0 else walk c r 0 p)"
proof (induction p rule: rev_induct)
  case Nil
  then show ?case by simp
next
  case (snoc i p)
  let ?a0 = "frameAddr c (walk c r 0 q0) i0"
  from snoc.prems have i: "i < PAGE_SIZE c" and vp: "vp c p" and len: "length p < TABLES_DEPTH c" by auto
  have ih: "walk c r' 0 p = (if prefix (q0 @ [i0]) p then 0 else walk c r 0 p)"
    by (rule snoc.IH[OF vp]) (use len in simp)
  show ?case
  proof (cases "prefix (q0 @ [i0]) p")
    case True
    then have "p \<noteq> []" by auto
    moreover have "walk c r' 0 p = 0" using ih True by simp
    ultimately have "walk c r' 0 (p @ [i]) = 0" by (simp add: walk_snoc)
    moreover have "prefix (q0 @ [i0]) (p @ [i])" using True by (simp add: prefix_snoc)
    ultimately show ?thesis by simp
  next
    case False
    then have w: "walk c r' 0 p = walk c r 0 p" using ih by simp
    show ?thesis
    proof (cases "p \<noteq> [] \<and> walk c r 0 p = 0")
      case True
      then show ?thesis by (simp add: walk_snoc w)
    next
      case nz: False
      then have tp: "tablePath c r p" using vp len by (auto simp: tablePath_def)
      have w': "walk c r' 0 (p @ [i]) = r' (frameAddr c (walk c r 0 p) i)"
        using nz by (auto simp: walk_snoc w)
      have w0: "walk c r 0 (p @ [i]) = r (frameAddr c (walk c r 0 p) i)"
        using nz by (auto simp: walk_snoc)
      show ?thesis
      proof (cases "p = q0 \<and> i = i0")
        case True
        then show ?thesis using w' r0 by simp
      next
        case ne: False
        then have na: "frameAddr c (walk c r 0 p) i \<noteq> ?a0"
          using table_entry_unique[OF v t tp q0 i i0] by blast
        have np: "\<not> prefix (q0 @ [i0]) (p @ [i])"
          using False ne by (auto simp: prefix_snoc)
        show ?thesis unfolding w' w0 r1[OF na] using np by auto
      qed
    qed
  qed
qed

lemma walk_link_gen:
  assumes v: "valid_config c" and t: "tree_inv c r m H" and q0: "tablePath c r q0" and i0: "i0 < PAGE_SIZE c"
    and un: "r (frameAddr c (walk c r 0 q0) i0) = 0" and f: "f \<in> H"
    and r0: "r' (frameAddr c (walk c r 0 q0) i0) = f"
    and r1: "\<And>a. a \<noteq> frameAddr c (walk c r 0 q0) i0 \<Longrightarrow> r' a = r a"
  shows "vp c p \<Longrightarrow> length p \<le> TABLES_DEPTH c \<Longrightarrow>
         walk c r' 0 p = (if p = q0 @ [i0] then f else walk c r 0 p)"
proof (induction p rule: rev_induct)
  case Nil
  then show ?case by simp
next
  case (snoc i p)
  let ?a0 = "frameAddr c (walk c r 0 q0) i0"
  from snoc.prems have i: "i < PAGE_SIZE c" and vp: "vp c p" and len: "length p < TABLES_DEPTH c" by auto
  have ih: "walk c r' 0 p = (if p = q0 @ [i0] then f else walk c r 0 p)"
    by (rule snoc.IH[OF vp]) (use len in simp)
  have fH: "0 < f" "f \<le> m" "\<And>j. j < PAGE_SIZE c \<Longrightarrow> r (frameAddr c f j) = 0"
    using t f unfolding tree_inv_def by blast+
  have mNF: "m < int (NUM_FRAMES c)" using t by (simp add: tree_inv_def)
  note fq = tree_inv_table_frame[OF t q0]
  have w00: "walk c r 0 (q0 @ [i0]) = 0" using un by (simp add: walk_snoc)
  show ?case
  proof (cases "p = q0 @ [i0]")
    case True
    then have wf: "walk c r' 0 p = f" using ih by simp
    have "frameAddr c f i \<noteq> ?a0"
    proof
      assume "frameAddr c f i = ?a0"
      from frameAddr_inj[OF v _ _ i _ _ i0 this] fH mNF fq have "f = walk c r 0 q0" by auto
      then show False using fq f by simp
    qed
    then have "r' (frameAddr c f i) = 0" using r1 fH(3)[OF i] by simp
    then have "walk c r' 0 (p @ [i]) = 0" using wf by (simp add: walk_snoc)
    moreover have "walk c r 0 (p @ [i]) = 0"
      unfolding True by (rule walk_zero_ext[OF _ w00]) simp
    moreover have "p @ [i] \<noteq> q0 @ [i0]" using True by simp
    ultimately show ?thesis by (simp only: if_False)
  next
    case False
    then have w: "walk c r' 0 p = walk c r 0 p" using ih by simp
    show ?thesis
    proof (cases "p \<noteq> [] \<and> walk c r 0 p = 0")
      case True
      then have "\<not> tablePath c r p" by (auto simp: tablePath_def)
      then have "p \<noteq> q0" using q0 by auto
      then show ?thesis using True by (simp add: walk_snoc w)
    next
      case nz: False
      then have tp: "tablePath c r p" using vp len by (auto simp: tablePath_def)
      have w': "walk c r' 0 (p @ [i]) = r' (frameAddr c (walk c r 0 p) i)"
        using nz by (auto simp: walk_snoc w)
      have w0: "walk c r 0 (p @ [i]) = r (frameAddr c (walk c r 0 p) i)"
        using nz by (auto simp: walk_snoc)
      show ?thesis
      proof (cases "p = q0 \<and> i = i0")
        case True
        then show ?thesis using w' r0 by simp
      next
        case ne: False
        then have na: "frameAddr c (walk c r 0 p) i \<noteq> ?a0"
          using table_entry_unique[OF v t tp q0 i i0] by blast
        show ?thesis unfolding w' w0 r1[OF na] using ne by auto
      qed
    qed
  qed
qed

section \<open>Detaching, adding and linking a frame\<close>

lemma mappedPath_walk_eq:
  assumes W: "\<And>p. vp c p \<Longrightarrow> length p \<le> TABLES_DEPTH c \<Longrightarrow>
        walk c r' 0 p = (if p = pe then 0 else walk c r 0 p)"
  shows "mappedPath c r' p \<longleftrightarrow> mappedPath c r p \<and> p \<noteq> pe"
  using W[of p] by (auto simp: mappedPath_def split: if_splits)

lemma tree_inv_remove:
  assumes t: "tree_inv c r m {}" and pe: "mappedPath c r pe"
    and W: "\<And>p. vp c p \<Longrightarrow> length p \<le> TABLES_DEPTH c \<Longrightarrow>
        walk c r' 0 p = (if p = pe then 0 else walk c r 0 p)"
    and Z: "\<And>i. i < PAGE_SIZE c \<Longrightarrow> r' (frameAddr c (walk c r 0 pe) i) = 0"
    and R: "\<And>a. nat (m + 1) * PAGE_SIZE c \<le> a \<Longrightarrow> r' a = 0"
  shows "tree_inv c r' m {walk c r 0 pe}"
proof -
  have mp: "mappedPath c r' p \<longleftrightarrow> mappedPath c r p \<and> p \<noteq> pe" for p
    using W by (rule mappedPath_walk_eq)
  have w: "mappedPath c r' p \<Longrightarrow> walk c r' 0 p = walk c r 0 p" for p
    using W[of p] by (auto simp: mappedPath_def split: if_splits)
  from t have m: "0 \<le> m" "m < int (NUM_FRAMES c)"
    and inj: "\<And>p q. mappedPath c r p \<Longrightarrow> mappedPath c r q \<Longrightarrow> walk c r 0 p = walk c r 0 q \<Longrightarrow> p = q"
    and rng: "\<And>p. mappedPath c r p \<Longrightarrow> 0 < walk c r 0 p \<and> walk c r 0 p \<le> m"
    and dense: "\<And>f. 0 < f \<Longrightarrow> f \<le> m \<Longrightarrow> \<exists>p. mappedPath c r p \<and> walk c r 0 p = f"
    unfolding tree_inv_def by blast+
  show ?thesis unfolding tree_inv_def
  proof (intro conjI allI impI ballI)
    show "0 \<le> m" "m < int (NUM_FRAMES c)" by fact+
  next
    fix p q assume "mappedPath c r' p \<and> mappedPath c r' q \<and> walk c r' 0 p = walk c r' 0 q"
    then show "p = q" using mp w inj by metis
  next
    fix p assume a: "mappedPath c r' p"
    then show "0 < walk c r' 0 p" "walk c r' 0 p \<le> m" using mp w rng by metis+
    show "walk c r' 0 p \<notin> {walk c r 0 pe}" using a mp w inj pe by (metis singletonD)
  next
    fix f assume "0 < f \<and> f \<le> m \<and> f \<notin> {walk c r 0 pe}"
    then obtain p where "mappedPath c r p" "walk c r 0 p = f" "f \<noteq> walk c r 0 pe" using dense by blast
    then have "mappedPath c r' p \<and> walk c r' 0 p = f" using mp w by metis
    then show "\<exists>p. mappedPath c r' p \<and> walk c r' 0 p = f" by blast
  next
    fix f assume "f \<in> {walk c r 0 pe}"
    then have f: "f = walk c r 0 pe" by simp
    show "0 < f" "f \<le> m" using rng[OF pe] f by simp_all
    fix i assume "i < PAGE_SIZE c"
    then show "r' (frameAddr c f i) = 0" using Z f by simp
  next
    fix a assume "nat (m + 1) * PAGE_SIZE c \<le> a"
    then show "r' a = 0" by (rule R)
  qed
qed

lemma tree_inv_fresh:
  assumes v: "valid_config c" and t: "tree_inv c r m {}" and lt: "m + 1 < int (NUM_FRAMES c)"
  shows "tree_inv c r (m + 1) {m + 1}"
proof -
  from t have m: "0 \<le> m"
    and R: "\<And>a. nat (m + 1) * PAGE_SIZE c \<le> a \<Longrightarrow> r a = 0"
    unfolding tree_inv_def by blast+
  have Z: "r (frameAddr c (m + 1) i) = 0" if "i < PAGE_SIZE c" for i
  proof -
    have "frameAddr c (m + 1) i = nat (m + 1) * PAGE_SIZE c + i"
      using m lt that by (intro frameAddr_int[OF v]) auto
    then show ?thesis using R by simp
  qed
  have R': "r a = 0" if "nat (m + 1 + 1) * PAGE_SIZE c \<le> a" for a
  proof -
    have "nat (m + 1) \<le> nat (m + 1 + 1)" by simp
    then have "nat (m + 1) * PAGE_SIZE c \<le> nat (m + 1 + 1) * PAGE_SIZE c" by (rule mult_le_mono1)
    then have "nat (m + 1) * PAGE_SIZE c \<le> a" using that by (rule order_trans)
    then show ?thesis by (rule R)
  qed
  show ?thesis using t Z R' lt m unfolding tree_inv_def
    by (intro conjI) (force+)?
qed

lemma tree_inv_link:
  assumes v: "valid_config c" and t: "tree_inv c r m {f}" and q0: "tablePath c r q0" and i0: "i0 < PAGE_SIZE c"
    and un: "r (frameAddr c (walk c r 0 q0) i0) = 0"
    and r0: "r' (frameAddr c (walk c r 0 q0) i0) = f"
    and r1: "\<And>a. a \<noteq> frameAddr c (walk c r 0 q0) i0 \<Longrightarrow> r' a = r a"
  shows "tree_inv c r' m {}"
    and "\<And>p. vp c p \<Longrightarrow> length p \<le> TABLES_DEPTH c \<Longrightarrow>
           walk c r' 0 p = (if p = q0 @ [i0] then f else walk c r 0 p)"
proof -
  show W: "walk c r' 0 p = (if p = q0 @ [i0] then f else walk c r 0 p)"
    if "vp c p" "length p \<le> TABLES_DEPTH c" for p
    using walk_link_gen[OF v t q0 i0 un _ r0 r1 that] by simp
  from t have m: "0 \<le> m" "m < int (NUM_FRAMES c)"
    and inj: "\<And>p q. mappedPath c r p \<Longrightarrow> mappedPath c r q \<Longrightarrow> walk c r 0 p = walk c r 0 q \<Longrightarrow> p = q"
    and rng: "\<And>p. mappedPath c r p \<Longrightarrow> 0 < walk c r 0 p \<and> walk c r 0 p \<le> m \<and> walk c r 0 p \<noteq> f"
    and dense: "\<And>g. 0 < g \<Longrightarrow> g \<le> m \<Longrightarrow> g \<noteq> f \<Longrightarrow> \<exists>p. mappedPath c r p \<and> walk c r 0 p = g"
    and fH: "0 < f" "f \<le> m"
    and R: "\<And>a. nat (m + 1) * PAGE_SIZE c \<le> a \<Longrightarrow> r a = 0"
    unfolding tree_inv_def by auto
  have w00: "walk c r 0 (q0 @ [i0]) = 0" using un by (simp add: walk_snoc)
  have vq: "vp c (q0 @ [i0])" "length (q0 @ [i0]) \<le> TABLES_DEPTH c" "q0 @ [i0] \<noteq> []"
    using q0 i0 by (auto simp: tablePath_def)
  have nm: "\<not> mappedPath c r (q0 @ [i0])" using w00 by (simp add: mappedPath_def)
  have mp: "mappedPath c r' p \<longleftrightarrow> mappedPath c r p \<or> p = q0 @ [i0]" for p
    using W[of p] vq fH nm by (auto simp: mappedPath_def split: if_splits)
  have w: "mappedPath c r p \<Longrightarrow> walk c r' 0 p = walk c r 0 p" for p
    using W[of p] nm by (auto simp: mappedPath_def split: if_splits)
  have wq: "walk c r' 0 (q0 @ [i0]) = f" using W[OF vq(1,2)] by simp
  note fq = tree_inv_table_frame[OF t q0]
  have a0: "frameAddr c (walk c r 0 q0) i0 < nat (m + 1) * PAGE_SIZE c"
  proof -
    have "frameAddr c (walk c r 0 q0) i0 = nat (walk c r 0 q0) * PAGE_SIZE c + i0"
      using fq i0 by (intro frameAddr_int[OF v]) auto
    moreover have "nat (walk c r 0 q0) < nat (m + 1)" using fq by auto
    ultimately show ?thesis using frame_lt[OF _ i0] by simp
  qed
  show "tree_inv c r' m {}" unfolding tree_inv_def
  proof (intro conjI allI impI ballI)
    show "0 \<le> m" "m < int (NUM_FRAMES c)" by fact+
  next
    fix p q assume a: "mappedPath c r' p \<and> mappedPath c r' q \<and> walk c r' 0 p = walk c r' 0 q"
    then consider "mappedPath c r p" "mappedPath c r q" | "mappedPath c r p" "q = q0 @ [i0]"
      | "p = q0 @ [i0]" "mappedPath c r q" | "p = q0 @ [i0]" "q = q0 @ [i0]"
      using mp by blast
    then show "p = q"
    proof cases
      case 1 then show ?thesis using a w inj by metis
    next
      case 2 then show ?thesis using a w wq rng by metis
    next
      case 3 then show ?thesis using a w wq rng by metis
    next
      case 4 then show ?thesis by simp
    qed
  next
    fix p assume a: "mappedPath c r' p"
    then consider "mappedPath c r p" | "p = q0 @ [i0]" using mp by blast
    then show "0 < walk c r' 0 p" "walk c r' 0 p \<le> m"
      using w wq rng fH by metis+
    show "walk c r' 0 p \<notin> {}" by simp
  next
    fix g assume g: "0 < g \<and> g \<le> m \<and> g \<notin> {}"
    show "\<exists>p. mappedPath c r' p \<and> walk c r' 0 p = g"
    proof (cases "g = f")
      case True
      then show ?thesis using mp wq by blast
    next
      case False
      with g obtain p where "mappedPath c r p" "walk c r 0 p = g" using dense by blast
      then show ?thesis using mp w by metis
    qed
  next
    fix a assume "nat (m + 1) * PAGE_SIZE c \<le> a"
    then show "r' a = 0" using a0 r1[of a] R[of a] by simp
  qed simp_all
qed

section \<open>The traversal lists and the tree\<close>

lemma foldl_max_Max: "foldl max (a::int) L = Max (insert a (set L))"
proof (induction L arbitrary: a)
  case Nil
  then show ?case by simp
next
  case (Cons x xs)
  have "Max (insert (max a x) (set xs)) = Max (insert a (insert x (set xs)))"
    by (cases "set xs = {}") (auto simp: max.assoc max.commute max.left_commute)
  then show ?case by (simp add: Cons)
qed

lemma linked_iff:
  assumes "1 \<le> TABLES_DEPTH c"
  shows "f \<in> set (linkList c r (TABLES_DEPTH c - 1) 0) \<longleftrightarrow> (\<exists>p. mappedPath c r p \<and> walk c r 0 p = f)"
proof -
  have "Suc (TABLES_DEPTH c - 1) = TABLES_DEPTH c" using assms by simp
  then show ?thesis unfolding linkList_iff mappedPath_def by auto
qed

lemma maxUsed_eq:
  assumes td: "1 \<le> TABLES_DEPTH c" and t: "tree_inv c r m {}"
  shows "maxUsed c r = m"
proof -
  let ?L = "linkList c r (TABLES_DEPTH c - 1) 0"
  from t have m: "0 \<le> m"
    and rng: "\<And>p. mappedPath c r p \<Longrightarrow> 0 < walk c r 0 p \<and> walk c r 0 p \<le> m"
    and dense: "\<And>f. 0 < f \<Longrightarrow> f \<le> m \<Longrightarrow> \<exists>p. mappedPath c r p \<and> walk c r 0 p = f"
    unfolding tree_inv_def by blast+
  note L = linked_iff[OF td, of _ r]
  have le: "\<forall>x \<in> insert 0 (set ?L). x \<le> m"
    using m rng L by auto
  have mem: "m \<in> insert 0 (set ?L)"
  proof (cases "m = 0")
    case True then show ?thesis by simp
  next
    case False
    then have "0 < m" using m by simp
    from dense[OF this] show ?thesis using L by auto
  qed
  have "Max (insert 0 (set ?L)) = m"
    by (rule Max_eqI) (use le mem in auto)
  then show ?thesis unfolding maxUsed_def foldl_max_Max .
qed

lemma firstEmpty_None_iff:
  "firstEmpty c r prot = None \<longleftrightarrow>
     (\<forall>x \<in> set (tableList c r (TABLES_DEPTH c - 1) 0 0). \<not> emptyCand c r prot x)"
  by (auto simp: firstEmpty_def find_None_iff)

lemma table_in_tableList:
  assumes "tablePath c r p" "p \<noteq> []"
  shows "(walk c r 0 p, entryAddr c r 0 p) \<in> set (tableList c r (TABLES_DEPTH c - 1) 0 0)"
proof -
  have "vp c p \<and> p \<noteq> [] \<and> length p \<le> TABLES_DEPTH c - 1 \<and> walk c r 0 p = walk c r 0 p \<and>
        walk c r 0 p \<noteq> 0 \<and> entryAddr c r 0 p = entryAddr c r 0 p"
    using assms by (auto simp: tablePath_def)
  then show ?thesis unfolding tableList_iff by blast
qed

lemma no_empty_tables:
  assumes "firstEmpty c r prot = None" "tablePath c r p" "p \<noteq> []" "isEmptyFrame c r (walk c r 0 p)"
  shows "walk c r 0 p = prot"
proof -
  have "\<not> emptyCand c r prot (walk c r 0 p, entryAddr c r 0 p)"
    using assms(1) table_in_tableList[OF assms(2,3)] unfolding firstEmpty_None_iff by blast
  moreover have "walk c r 0 p \<noteq> 0" using assms(2,3) by (auto simp: tablePath_def)
  ultimately show ?thesis using assms(4) by (simp add: emptyCand_def)
qed

lemma extend_to_empty:
  assumes nofull: "\<And>p. vp c p \<Longrightarrow> length p = TABLES_DEPTH c \<Longrightarrow> walk c r 0 p = 0"
  shows "mappedPath c r p \<Longrightarrow>
         \<exists>q. prefix p q \<and> tablePath c r q \<and> q \<noteq> [] \<and> isEmptyFrame c r (walk c r 0 q)"
proof (induction "TABLES_DEPTH c - length p" arbitrary: p rule: less_induct)
  case less
  from less.prems have vp: "vp c p" and ne: "p \<noteq> []" and len: "length p \<le> TABLES_DEPTH c"
    and nz: "walk c r 0 p \<noteq> 0" by (auto simp: mappedPath_def)
  have "length p \<noteq> TABLES_DEPTH c" using nofull[OF vp] nz by auto
  then have lt: "length p < TABLES_DEPTH c" using len by simp
  then have tp: "tablePath c r p" using vp nz by (simp add: tablePath_def)
  show ?case
  proof (cases "isEmptyFrame c r (walk c r 0 p)")
    case True
    then show ?thesis using tp ne by blast
  next
    case False
    then obtain i where i: "i < PAGE_SIZE c" "r (frameAddr c (walk c r 0 p) i) \<noteq> 0"
      by (auto simp: isEmptyFrame_def)
    then have "walk c r 0 (p @ [i]) \<noteq> 0" using nz by (simp add: walk_snoc)
    then have mp: "mappedPath c r (p @ [i])" using vp i(1) lt by (simp add: mappedPath_def)
    have "TABLES_DEPTH c - length (p @ [i]) < TABLES_DEPTH c - length p" using lt by simp
    from less.hyps[OF this mp] obtain q where "prefix (p @ [i]) q" "tablePath c r q" "q \<noteq> []"
      "isEmptyFrame c r (walk c r 0 q)" by blast
    moreover from this(1) have "prefix p q" by (rule append_prefixD)
    ultimately show ?thesis by blast
  qed
qed

lemma leaves_exist:
  assumes v: "valid_config c" and t: "tree_inv c r m {}" and full: "int (NUM_FRAMES c) \<le> m + 1"
    and fe: "firstEmpty c r prot = None" and q: "tablePath c r q" and prot: "prot = walk c r 0 q"
  shows "\<exists>p. vp c p \<and> length p = TABLES_DEPTH c \<and> walk c r 0 p \<noteq> 0"
proof (rule ccontr)
  assume "\<not> ?thesis"
  then have nofull: "\<And>p. vp c p \<Longrightarrow> length p = TABLES_DEPTH c \<Longrightarrow> walk c r 0 p = 0" by blast
  from t have m: "0 \<le> m"
    and dense: "\<And>f. 0 < f \<Longrightarrow> f \<le> m \<Longrightarrow> \<exists>p. mappedPath c r p \<and> walk c r 0 p = f"
    unfolding tree_inv_def by blast+
  have pre: "prefix p q" if "mappedPath c r p" for p
  proof -
    from extend_to_empty[OF nofull that] obtain p' where p': "prefix p p'" "tablePath c r p'" "p' \<noteq> []"
      "isEmptyFrame c r (walk c r 0 p')" by blast
    from no_empty_tables[OF fe p'(2,3,4)] have "walk c r 0 p' = walk c r 0 q" using prot by simp
    from tree_inv_table_inj[OF t p'(2) q this] p'(1) show ?thesis by simp
  qed
  have "\<forall>f \<in> {1..m}. \<exists>p. mappedPath c r p \<and> walk c r 0 p = f" using dense by auto
  then obtain ph where ph: "\<And>f. f \<in> {1..m} \<Longrightarrow> mappedPath c r (ph f) \<and> walk c r 0 (ph f) = f"
    by metis
  define h where "h f = length (ph f)" for f
  have "inj_on h {1..m}"
  proof (rule inj_onI)
    fix f g assume fg: "f \<in> {1..m}" "g \<in> {1..m}" "h f = h g"
    have "prefix (ph f) q" "prefix (ph g) q" using pre ph fg by blast+
    then have "ph f = take (length (ph f)) q" "ph g = take (length (ph g)) q"
      by (metis append_eq_conv_conj prefix_def)+
    then have "ph f = ph g" using fg(3) by (simp add: h_def)
    then show "f = g" using ph fg by metis
  qed
  moreover have "h ` {1..m} \<subseteq> {1..length q}"
  proof
    fix k assume "k \<in> h ` {1..m}"
    then obtain f where f: "f \<in> {1..m}" "k = h f" by blast
    then have "prefix (ph f) q" "ph f \<noteq> []" using pre ph by (auto simp: mappedPath_def)
    then show "k \<in> {1..length q}" using f(2) by (auto simp: h_def prefix_length_le Suc_leI)
  qed
  ultimately have "card {1..m} \<le> card {1..length q}"
    by (intro card_inj_on_le) auto
  then have "nat m \<le> length q" by simp
  moreover have "length q < TABLES_DEPTH c" using q by (simp add: tablePath_def)
  moreover have "TABLES_DEPTH c < NUM_FRAMES c" using v by (simp add: valid_config_def)
  ultimately show False using full m by linarith
qed

section \<open>The path of a virtual address\<close>

lemma levelPath_0 [simp]: "levelPath c va 0 = []"
  by (simp add: levelPath_def)

lemma levelPath_Suc:
  "levelPath c va (Suc l) = getOffset c (va div 2 ^ (Suc l * OFFSET_WIDTH c)) # levelPath c va l"
  by (simp add: levelPath_def)

lemma length_levelPath [simp]: "length (levelPath c va l) = l"
  by (simp add: levelPath_def)

lemma vp_levelPath: "valid_config c \<Longrightarrow> vp c (levelPath c va l)"
  by (auto simp: levelPath_def vp_def getOffset_less)

lemma length_vaPath [simp]: "length (vaPath c va) = TABLES_DEPTH c"
  by (simp add: vaPath_def)

lemma vp_vaPath: "valid_config c \<Longrightarrow> vp c (vaPath c va)"
  by (simp add: vaPath_def vp_levelPath)

lemma pageFrom_Nil [simp]: "pageFrom c pg [] = pg"
  by (simp add: pageFrom_def)

lemma pageFrom_snoc: "pageFrom c pg (p @ [i]) = pageFrom c pg p * 2 ^ OFFSET_WIDTH c + i"
  by (simp add: pageFrom_def)

lemma pageFrom_inj:
  "vp c p \<Longrightarrow> vp c q \<Longrightarrow> length p = length q \<Longrightarrow> pageFrom c pg p = pageFrom c pg q \<Longrightarrow> p = q"
proof (induction p arbitrary: q rule: rev_induct)
  case Nil
  then show ?case by simp
next
  case (snoc i p)
  then obtain j q' where q: "q = q' @ [j]" by (cases q rule: rev_cases) auto
  with snoc.prems have i: "i < PAGE_SIZE c" "j < PAGE_SIZE c" "vp c p" "vp c q'" "length p = length q'"
    and e: "pageFrom c pg p * PAGE_SIZE c + i = pageFrom c pg q' * PAGE_SIZE c + j"
    by (auto simp: pageFrom_snoc PAGE_SIZE_def)
  from addr_inj[OF i(1,2) e] have "pageFrom c pg p = pageFrom c pg q'" "i = j" by simp_all
  with snoc.IH[OF i(3,4,5)] q show ?case by simp
qed

lemma levelPath_cong:
  assumes "a div 2 ^ OFFSET_WIDTH c = b div 2 ^ OFFSET_WIDTH c"
  shows "levelPath c a l = levelPath c b l"
proof -
  have "a div 2 ^ (j * OFFSET_WIDTH c) = b div 2 ^ (j * OFFSET_WIDTH c)" if "1 \<le> j" for j
  proof -
    from that obtain k where j: "j = Suc k" by (cases j) auto
    have "x div 2 ^ (j * OFFSET_WIDTH c) = (x div 2 ^ OFFSET_WIDTH c) div 2 ^ (k * OFFSET_WIDTH c)" for x :: nat
      unfolding j by (simp add: power_add div_mult2_eq)
    then show ?thesis using assms by simp
  qed
  then show ?thesis by (auto simp: levelPath_def)
qed

lemma pageFrom_levelPath:
  assumes v: "valid_config c"
  shows "pageFrom c pg (levelPath c va l) =
           pg * 2 ^ (l * OFFSET_WIDTH c) + (va div 2 ^ OFFSET_WIDTH c) mod 2 ^ (l * OFFSET_WIDTH c)"
proof (induction l arbitrary: pg)
  case 0
  then show ?case by simp
next
  case (Suc l)
  define W :: nat where "W = 2 ^ OFFSET_WIDTH c"
  define B :: nat where "B = 2 ^ (l * OFFSET_WIDTH c)"
  define x where "x = va div W"
  have W: "PAGE_SIZE c = W" by (simp add: W_def PAGE_SIZE_def)
  have p1: "(2::nat) ^ (Suc l * OFFSET_WIDTH c) = B * W" by (simp add: W_def B_def power_add)
  have "va div (W * B) = va div W div B" by (rule div_mult2_eq)
  then have "va div 2 ^ (Suc l * OFFSET_WIDTH c) = x div B"
    unfolding p1 x_def by (simp only: mult.commute[of B W])
  then have idx: "getOffset c (va div 2 ^ (Suc l * OFFSET_WIDTH c)) = (x div B) mod W"
    by (simp add: getOffset_valid[OF v] W)
  have "pageFrom c pg (levelPath c va (Suc l)) = pageFrom c (pg * W + (x div B) mod W) (levelPath c va l)"
    unfolding levelPath_Suc pageFrom_Cons idx W_def ..
  also have "\<dots> = (pg * W + (x div B) mod W) * B + x mod B"
    unfolding Suc.IH B_def x_def W_def ..
  also have "\<dots> = pg * (B * W) + (B * ((x div B) mod W) + x mod B)"
    by (simp add: algebra_simps)
  also have "B * ((x div B) mod W) + x mod B = x mod (B * W)"
    by (simp add: mod_mult2_eq)
  finally show ?case unfolding p1 x_def W_def .
qed

lemma pageFrom_vaPath:
  assumes v: "valid_config c" and lt: "va < VIRTUAL_MEMORY_SIZE c"
  shows "pageFrom c 0 (vaPath c va) = va div 2 ^ OFFSET_WIDTH c"
proof -
  have "va < 2 ^ OFFSET_WIDTH c * 2 ^ (TABLES_DEPTH c * OFFSET_WIDTH c)"
    using lt by (simp add: VIRTUAL_MEMORY_SIZE_def power_add mult.commute)
  then have "va div 2 ^ OFFSET_WIDTH c < 2 ^ (TABLES_DEPTH c * OFFSET_WIDTH c)"
    by (simp add: less_mult_imp_div_less mult.commute)
  then show ?thesis unfolding vaPath_def pageFrom_levelPath[OF v] by simp
qed

lemma vaPath_eq_iff:
  assumes v: "valid_config c" and "a < VIRTUAL_MEMORY_SIZE c" "b < VIRTUAL_MEMORY_SIZE c"
  shows "vaPath c a = vaPath c b \<longleftrightarrow> a div 2 ^ OFFSET_WIDTH c = b div 2 ^ OFFSET_WIDTH c"
  using pageFrom_vaPath[OF v assms(2)] pageFrom_vaPath[OF v assms(3)] levelPath_cong[of a c b "TABLES_DEPTH c"]
  by (auto simp: vaPath_def)

section \<open>Frames of the tree and the log\<close>

lemma nodePath_table: "tablePath c r p \<Longrightarrow> nodePath c r p"
  by (auto simp: tablePath_def nodePath_def)

lemma nodePath_mapped: "mappedPath c r p \<Longrightarrow> nodePath c r p"
  by (auto simp: mappedPath_def nodePath_def)

lemma nodePath_cases: "nodePath c r p \<Longrightarrow> p = [] \<or> mappedPath c r p"
  by (auto simp: mappedPath_def nodePath_def)

lemma node_frame:
  assumes "tree_inv c r m H" "nodePath c r p"
  shows "0 \<le> walk c r 0 p \<and> walk c r 0 p < int (NUM_FRAMES c) \<and> walk c r 0 p \<le> m \<and> walk c r 0 p \<notin> H"
  using nodePath_cases[OF assms(2)]
proof
  assume "p = []" then show ?thesis using assms(1) by (auto simp: tree_inv_def)
next
  assume "mappedPath c r p" then show ?thesis using assms(1) unfolding tree_inv_def by force
qed

lemma node_inj:
  assumes "tree_inv c r m H" "nodePath c r p" "nodePath c r q" "walk c r 0 p = walk c r 0 q"
  shows "p = q"
proof -
  have z: "mappedPath c r x \<Longrightarrow> walk c r 0 x \<noteq> 0" for x by (simp add: mappedPath_def)
  from nodePath_cases[OF assms(2)] nodePath_cases[OF assms(3)] show ?thesis
    using assms(1,4) z unfolding tree_inv_def by (metis walk.simps(1))
qed

lemma node_addr_neq:
  assumes v: "valid_config c" and t: "tree_inv c r m H" and p: "nodePath c r p" and q: "nodePath c r q"
    and i: "i < PAGE_SIZE c" and j: "j < PAGE_SIZE c" and ne: "p \<noteq> q"
  shows "frameAddr c (walk c r 0 p) i \<noteq> frameAddr c (walk c r 0 q) j"
proof
  assume e: "frameAddr c (walk c r 0 p) i = frameAddr c (walk c r 0 q) j"
  note fp = node_frame[OF t p] and fq = node_frame[OF t q]
  have "walk c r 0 p = walk c r 0 q"
    using frameAddr_inj[OF v _ _ i _ _ j e] fp fq by blast
  from node_inj[OF t p q this] ne show False by simp
qed

lemma node_addr_nat:
  assumes v: "valid_config c" and t: "tree_inv c r m H" and p: "nodePath c r p" and i: "i < PAGE_SIZE c"
  shows "frameAddr c (walk c r 0 p) i = nat (walk c r 0 p) * PAGE_SIZE c + i"
    and "frameAddr c (walk c r 0 p) i < nat (m + 1) * PAGE_SIZE c"
proof -
  note fp = node_frame[OF t p]
  show a: "frameAddr c (walk c r 0 p) i = nat (walk c r 0 p) * PAGE_SIZE c + i"
    using fp i by (intro frameAddr_int[OF v]) auto
  have "nat (walk c r 0 p) < nat (m + 1)" using fp by auto
  from frame_lt[OF this i] show "frameAddr c (walk c r 0 p) i < nat (m + 1) * PAGE_SIZE c"
    unfolding a .
qed

lemma log_ok_simps [simp]:
  "log_ok c m []"
  "log_ok c m (e # es) \<longleftrightarrow> event_ok c m e \<and> log_ok c m es"
  "log_ok c m (es @ es') \<longleftrightarrow> log_ok c m es \<and> log_ok c m es'"
  by (auto simp: log_ok_def)

lemma log_ok_effects: "log_ok c m (effects es) \<longleftrightarrow> log_ok c m es"
proof (induction es)
  case Nil
  then show ?case by simp
next
  case (Cons e es)
  then show ?case by (cases e) simp_all
qed

lemma event_ok_mono: "m \<le> m' \<Longrightarrow> event_ok c m e \<Longrightarrow> event_ok c m' e"
proof (cases e)
  case (EvWrite a v)
  assume "m \<le> m'" "event_ok c m e"
  then have "a < nat (m + 1) * PAGE_SIZE c" "nat (m + 1) \<le> nat (m' + 1)" using EvWrite by simp_all
  then have "a < nat (m' + 1) * PAGE_SIZE c"
    by (meson mult_le_mono1 order_less_le_trans)
  then show ?thesis using EvWrite by simp
qed auto

lemma log_ok_mono: "m \<le> m' \<Longrightarrow> log_ok c m es \<Longrightarrow> log_ok c m' es"
  by (auto simp: log_ok_def intro: event_ok_mono)

lemma vmem_cong:
  assumes "swap s' (a div 2 ^ OFFSET_WIDTH c) = swap s (a div 2 ^ OFFSET_WIDTH c)"
    and "walk c (ram s') 0 (vaPath c a) = walk c (ram s) 0 (vaPath c a)"
    and "walk c (ram s) 0 (vaPath c a) \<noteq> 0 \<Longrightarrow>
         ram s' (frameAddr c (walk c (ram s) 0 (vaPath c a)) (getOffset c a)) =
         ram s (frameAddr c (walk c (ram s) 0 (vaPath c a)) (getOffset c a))"
  shows "vmem c s' a = vmem c s a"
  using assms by (simp add: vmem_def split: option.splits)

lemma tier2_post:
  assumes v: "valid_config c" and inv: "mid_inv c s m {} X"
    and q: "tablePath c (ram s) q"
    and lt: "m + 1 < int (NUM_FRAMES c)"
    and s': "ram s' = ram s" "swap s' = swap s"
      "effects (trace s') = EvAlloc (walk c (ram s) 0 q) (m + 1) # effects (trace s)"
  shows "mid_inv c s' (m + 1) {m + 1} X"
proof -
  from inv have t: "tree_inv c (ram s) m {}" and l: "log_ok c m (trace s)" and sw: "swap_inv c s X"
    by (simp_all add: mid_inv_def)
  have "walk c (ram s) 0 q \<le> m" using tree_inv_table_frame[OF t q] by simp
  then have "event_ok c (m + 1) (EvAlloc (walk c (ram s) 0 q) (m + 1))"
    using t by (simp add: tree_inv_def)
  moreover have "log_ok c (m + 1) (effects (trace s))"
    using log_ok_mono[of m "m + 1" c "trace s"] l by (simp add: log_ok_effects)
  ultimately have "log_ok c (m + 1) (trace s')"
    using s'(3) log_ok_effects[of c "m + 1" "trace s'"] by simp
  moreover have "swap_inv c s' X" using sw s' by (simp add: swap_inv_def)
  moreover have "tree_inv c (ram s') (m + 1) {m + 1}"
    using tree_inv_fresh[OF v t lt] s' by simp
  ultimately show ?thesis by (simp add: mid_inv_def)
qed

section \<open>The empty-table tier keeps the invariant\<close>

lemma valid_TD: "valid_config c \<Longrightarrow> 1 \<le> TABLES_DEPTH c"
  by (simp add: valid_config_def)

lemma firstEmpty_Some:
  assumes "firstEmpty c r prot = Some (e, pa)" and td: "1 \<le> TABLES_DEPTH c"
  shows "\<exists>pe. vp c pe \<and> pe \<noteq> [] \<and> length pe < TABLES_DEPTH c \<and> walk c r 0 pe = e \<and> e \<noteq> 0 \<and>
           e \<noteq> prot \<and> isEmptyFrame c r e \<and> pa = entryAddr c r 0 pe"
proof -
  from assms(1) have "(e, pa) \<in> set (tableList c r (TABLES_DEPTH c - 1) 0 0)" "emptyCand c r prot (e, pa)"
    unfolding firstEmpty_def find_Some_iff by (metis nth_mem)+
  then obtain pe where "vp c pe" "pe \<noteq> []" "length pe \<le> TABLES_DEPTH c - 1" "walk c r 0 pe = e" "e \<noteq> 0"
      "e \<noteq> prot" "isEmptyFrame c r e" "pa = entryAddr c r 0 pe"
    unfolding tableList_iff emptyCand_def by auto
  moreover from this(3) td have "length pe < TABLES_DEPTH c" by linarith
  ultimately show ?thesis by blast
qed

lemma empty_frame_children:
  assumes "isEmptyFrame c r (walk c r 0 pe)" "walk c r 0 pe \<noteq> 0" "vp c p" "prefix pe p" "p \<noteq> pe"
  shows "walk c r 0 p = 0"
proof -
  from assms(4,5) obtain j rest where p: "p = pe @ j # rest"
    by (metis append_Nil2 neq_Nil_conv prefix_def)
  then have "j < PAGE_SIZE c" using assms(3) by simp
  then have "r (frameAddr c (walk c r 0 pe) j) = 0" using assms(1) by (simp add: isEmptyFrame_def)
  then show ?thesis unfolding p by (simp add: walk_append)
qed

lemma tier1_post:
  assumes v: "valid_config c" and inv: "mid_inv c s m {} X"
    and q: "tablePath c (ram s) q"
    and fe: "firstEmpty c (ram s) (walk c (ram s) 0 q) = Some (e, pa)"
    and s': "ram s' = (ram s)(pa := 0)" "swap s' = swap s"
      "effects (trace s') = EvAlloc (walk c (ram s) 0 q) e # EvWrite pa 0 # effects (trace s)"
  shows "mid_inv c s' m {e} X \<and> alloc_post c s s' q"
proof -
  let ?r = "ram s" and ?r' = "ram s'"
  from inv have t: "tree_inv c ?r m {}" and l: "log_ok c m (trace s)" and sw: "swap_inv c s X"
    by (simp_all add: mid_inv_def)
  from firstEmpty_Some[OF fe valid_TD[OF v]] obtain pe where pe: "vp c pe" "pe \<noteq> []" "length pe < TABLES_DEPTH c"
    "walk c ?r 0 pe = e" "e \<noteq> 0" "e \<noteq> walk c ?r 0 q" "isEmptyFrame c ?r e" "pa = entryAddr c ?r 0 pe"
    by blast
  have mpe: "mappedPath c ?r pe" using pe by (simp add: mappedPath_def)
  have tpe: "tablePath c ?r pe" using pe by (simp add: tablePath_def)
  define q0 where "q0 = butlast pe"
  define i0 where "i0 = last pe"
  have pe_eq: "pe = q0 @ [i0]" using pe(2) by (simp add: q0_def i0_def)
  have tq0: "tablePath c ?r q0" using tpe unfolding pe_eq by (rule tablePath_prefix)
  have i0: "i0 < PAGE_SIZE c" using pe(1) unfolding pe_eq by simp
  have pa: "pa = frameAddr c (walk c ?r 0 q0) i0" using pe(8) by (simp add: entryAddr_def q0_def i0_def)
  have r0: "?r' (frameAddr c (walk c ?r 0 q0) i0) = 0" using s'(1) pa by simp
  have r1: "?r' a = ?r a" if "a \<noteq> frameAddr c (walk c ?r 0 q0) i0" for a
    using that s'(1) pa by simp
  have r2: "?r' a = ?r a \<or> ?r' a = 0" for a using s'(1) by simp
  have W: "walk c ?r' 0 p = (if p = pe then 0 else walk c ?r 0 p)"
    if "vp c p" "length p \<le> TABLES_DEPTH c" for p
  proof -
    have "walk c ?r' 0 p = (if prefix pe p then 0 else walk c ?r 0 p)"
      using walk_detach_gen[OF v t tq0 i0 r0 r1 that] by (simp add: pe_eq)
    moreover have "walk c ?r 0 p = 0" if "prefix pe p" "p \<noteq> pe"
      using empty_frame_children[OF _ _ \<open>vp c p\<close> that] pe by simp
    ultimately show ?thesis by auto
  qed
  have Z: "?r' (frameAddr c (walk c ?r 0 pe) i) = 0" if "i < PAGE_SIZE c" for i
    using r2[of "frameAddr c e i"] pe(4,7) that by (auto simp: isEmptyFrame_def)
  have R: "?r' a = 0" if "nat (m + 1) * PAGE_SIZE c \<le> a" for a
    using r2[of a] t that by (auto simp: tree_inv_def)
  have t': "tree_inv c ?r' m {e}"
    using tree_inv_remove[OF t mpe W Z R] pe(4) by simp
  have mp: "mappedPath c ?r' p \<longleftrightarrow> mappedPath c ?r p \<and> p \<noteq> pe" for p
    using W by (rule mappedPath_walk_eq)
  have e_rng: "0 < e" "e \<le> m" using t mpe pe(4) unfolding tree_inv_def by blast+
  have "event_ok c m (EvAlloc (walk c ?r 0 q) e)" using pe(6) e_rng by simp
  moreover have "event_ok c m (EvWrite pa 0)"
    using node_addr_nat(2)[OF v t nodePath_table[OF tq0] i0] pa by simp
  ultimately have "log_ok c m (effects (trace s'))" using l by (simp add: s'(3) log_ok_effects)
  then have l': "log_ok c m (trace s')" by (simp add: log_ok_effects)
  have sw': "swap_inv c s' X" using sw mp by (simp add: swap_inv_def s'(2))
  have qne: "q \<noteq> pe" using pe(4,6) by auto
  have vq: "vp c q" "length q \<le> TABLES_DEPTH c" using q by (auto simp: tablePath_def)
  have wq: "walk c ?r' 0 q = walk c ?r 0 q" using W[OF vq] qne by simp
  then have tq': "tablePath c ?r' q" using q by (simp add: tablePath_def)
  have vm: "vmem c s' a = vmem c s a" if "a < VIRTUAL_MEMORY_SIZE c" for a
  proof (rule vmem_cong)
    show "swap s' (a div 2 ^ OFFSET_WIDTH c) = swap s (a div 2 ^ OFFSET_WIDTH c)" by (simp add: s'(2))
    have ne: "vaPath c a \<noteq> pe" using pe(3) by (metis length_vaPath less_irrefl)
    show w: "walk c ?r' 0 (vaPath c a) = walk c ?r 0 (vaPath c a)"
      using W[OF vp_vaPath[OF v]] ne by simp
    assume nz: "walk c ?r 0 (vaPath c a) \<noteq> 0"
    then have np: "nodePath c ?r (vaPath c a)" by (simp add: nodePath_def vp_vaPath[OF v])
    have "vaPath c a \<noteq> q0" using tq0 by (metis length_vaPath less_irrefl tablePath_def)
    from node_addr_neq[OF v t np nodePath_table[OF tq0] getOffset_less[OF v] i0 this]
    show "?r' (frameAddr c (walk c ?r 0 (vaPath c a)) (getOffset c a)) =
          ?r (frameAddr c (walk c ?r 0 (vaPath c a)) (getOffset c a))"
      by (rule r1)
  qed
  have "alloc_post c s s' q" using tq' wq r2 vm unfolding alloc_post_def by metis
  then show ?thesis using t' l' sw' by (simp add: mid_inv_def)
qed

section \<open>The eviction tier keeps the invariant\<close>

lemma clearedRam_apply:
  assumes v: "valid_config c" and n: "n < NUM_FRAMES c"
  shows "clearedRam c r n a = (if n * PAGE_SIZE c \<le> a \<and> a < n * PAGE_SIZE c + PAGE_SIZE c then 0 else r a)"
proof -
  have m: "(n * PAGE_SIZE c + i) mod 2 ^ 64 = n * PAGE_SIZE c + i" if "i < PAGE_SIZE c" for i
    using frame_addr_lt64[OF v that n] by simp
  have "a \<in> set (map (\<lambda>i. (n * PAGE_SIZE c + i) mod 2 ^ 64) [0..<PAGE_SIZE c]) \<longleftrightarrow>
        n * PAGE_SIZE c \<le> a \<and> a < n * PAGE_SIZE c + PAGE_SIZE c"
  proof
    assume "a \<in> set (map (\<lambda>i. (n * PAGE_SIZE c + i) mod 2 ^ 64) [0..<PAGE_SIZE c])"
    then obtain i where "i < PAGE_SIZE c" "a = (n * PAGE_SIZE c + i) mod 2 ^ 64" by auto
    then show "n * PAGE_SIZE c \<le> a \<and> a < n * PAGE_SIZE c + PAGE_SIZE c" using m by simp
  next
    assume a: "n * PAGE_SIZE c \<le> a \<and> a < n * PAGE_SIZE c + PAGE_SIZE c"
    define i where "i = a - n * PAGE_SIZE c"
    from a have i: "i < PAGE_SIZE c" "a = n * PAGE_SIZE c + i" by (auto simp: i_def)
    then have "i \<in> set [0..<PAGE_SIZE c]"
      "a = (n * PAGE_SIZE c + i) mod 2 ^ 64" using m[of i] by auto
    then show "a \<in> set (map (\<lambda>i. (n * PAGE_SIZE c + i) mod 2 ^ 64) [0..<PAGE_SIZE c])"
      by (metis (mono_tags, lifting) image_eqI set_map)
  qed
  then show ?thesis by (simp add: clearedRam_def)
qed

lemma log_ok_clearEvents:
  assumes v: "valid_config c" and n: "n < NUM_FRAMES c" and le: "int n \<le> m"
  shows "log_ok c m (clearEvents c n)"
proof -
  have "event_ok c m (EvWrite ((n * PAGE_SIZE c + i) mod 2 ^ 64) 0)" if "i < PAGE_SIZE c" for i
  proof -
    have "(n * PAGE_SIZE c + i) mod 2 ^ 64 = n * PAGE_SIZE c + i"
      using frame_addr_lt64[OF v that n] by simp
    moreover have "n < nat (m + 1)" using le by linarith
    ultimately show ?thesis using frame_lt[OF _ that, of n "nat (m + 1)"] by simp
  qed
  then show ?thesis by (auto simp: log_ok_def clearEvents_def)
qed

lemma tier3_post:
  assumes v: "valid_config c" and inv: "mid_inv c s m {} X"
    and q: "tablePath c (ram s) q"
    and tun: "\<And>p. vp c p \<Longrightarrow> length p = TABLES_DEPTH c \<Longrightarrow> pageFrom c 0 p \<in> X \<Longrightarrow> walk c (ram s) 0 p = 0"
    and lf: "(f, pa, pg) \<in> set (leafList c (ram s) (TABLES_DEPTH c - 1) 0 0)"
    and s': "ram s' = clearedRam c ((ram s)(pa := 0)) (to_uint64 f)"
      "swap s' = (swap s)(pg \<mapsto> (\<lambda>i. ((ram s)(pa := 0)) (to_uint64 f * PAGE_SIZE c + i)))"
      "effects (trace s') = EvAlloc (walk c (ram s) 0 q) f # clearEvents c (to_uint64 f) @
          [EvEvict (to_uint64 f) pg, EvWrite pa 0] @ effects (trace s)"
  shows "mid_inv c s' m {f} X \<and> alloc_post c s s' q"
proof -
  let ?r = "ram s" and ?r' = "ram s'"
  let ?P = "PAGE_SIZE c"
  note td = valid_TD[OF v]
  from inv have t: "tree_inv c ?r m {}" and l: "log_ok c m (trace s)" and sw: "swap_inv c s X"
    by (simp_all add: mid_inv_def)
  have "Suc (TABLES_DEPTH c - 1) = TABLES_DEPTH c" using td by simp
  with lf obtain pf where pf: "vp c pf" "length pf = TABLES_DEPTH c" "walk c ?r 0 pf = f" "f \<noteq> 0"
    "pa = entryAddr c ?r 0 pf" "pg = pageFrom c 0 pf"
    unfolding leafList_iff by auto
  have pfne: "pf \<noteq> []" using pf(2) td by auto
  have mpf: "mappedPath c ?r pf" using pf pfne by (simp add: mappedPath_def)
  note npf = nodePath_mapped[OF mpf]
  define q0 where "q0 = butlast pf"
  define i0 where "i0 = last pf"
  have pf_eq: "pf = q0 @ [i0]" using pfne by (simp add: q0_def i0_def)
  have i0: "i0 < ?P" and vq0: "vp c q0" using pf(1) unfolding pf_eq by simp_all
  have lq0: "length q0 < TABLES_DEPTH c" using pf(2) unfolding pf_eq by simp
  have "\<not> (q0 \<noteq> [] \<and> walk c ?r 0 q0 = 0)"
    using pf(3,4) unfolding pf_eq by (auto simp: walk_snoc)
  then have tq0: "tablePath c ?r q0" using vq0 lq0 by (auto simp: tablePath_def)
  note nq0 = nodePath_table[OF tq0]
  have pa: "pa = frameAddr c (walk c ?r 0 q0) i0" using pf(5) by (simp add: entryAddr_def q0_def i0_def)
  have f_rng: "0 < f" "f \<le> m" "f < int (NUM_FRAMES c)"
    using t mpf pf(3) unfolding tree_inv_def by force+
  define n where "n = nat f"
  have n: "n < NUM_FRAMES c" "int n = f" "0 < n" "int n \<le> m" using f_rng by (simp_all add: n_def)
  have tu: "to_uint64 f = n" using to_uint64_nat[OF v n(1)] n(2) by simp
  have fa: "frameAddr c f j = n * ?P + j" if "j < ?P" for j
    using frameAddr_nat[OF v that n(1)] n(2) by simp
  define r1 where "r1 = ?r(pa := 0)"
  have r1_0: "r1 (frameAddr c (walk c ?r 0 q0) i0) = 0" by (simp add: r1_def pa)
  have r1_1: "r1 a = ?r a" if "a \<noteq> frameAddr c (walk c ?r 0 q0) i0" for a
    using that by (simp add: r1_def pa)
  have r': "?r' a = (if n * ?P \<le> a \<and> a < n * ?P + ?P then 0 else r1 a)" for a
    unfolding s'(1) tu r1_def[symmetric] by (rule clearedRam_apply[OF v n(1)])
  have r'_out: "?r' a = r1 a" if "\<not> (n * ?P \<le> a \<and> a < n * ?P + ?P)" for a
    unfolding r' using that by (simp only: if_False)
  have r2: "?r' a = ?r a \<or> ?r' a = 0" for a
    unfolding r' by (simp add: r1_def)
  have W1: "walk c r1 0 p = (if p = pf then 0 else walk c ?r 0 p)"
    if "vp c p" "length p \<le> TABLES_DEPTH c" for p
  proof -
    have "prefix pf p \<longleftrightarrow> p = pf"
    proof
      assume pp: "prefix pf p"
      then have "length pf \<le> length p" by (rule prefix_length_le)
      then have "length pf = length p" using that(2) pf(2) by simp
      with pp show "p = pf" by (auto simp: prefix_def)
    qed simp
    then show ?thesis using walk_detach_gen[OF v t tq0 i0 r1_0 r1_1 that] by (simp add: pf_eq)
  qed
  have out: "\<not> (n * ?P \<le> frameAddr c (walk c ?r 0 p) j \<and> frameAddr c (walk c ?r 0 p) j < n * ?P + ?P)"
    if "nodePath c ?r p" "p \<noteq> pf" "j < ?P" for p j
  proof -
    have "walk c ?r 0 p \<noteq> f" using node_inj[OF t that(1) npf] that(2) pf(3) by auto
    then have "nat (walk c ?r 0 p) \<noteq> n" using node_frame[OF t that(1)] n(2) by auto
    then show ?thesis
      unfolding node_addr_nat(1)[OF v t that(1,3)] using addr_in_frame[OF that(3), of n "nat (walk c ?r 0 p)"]
      by simp
  qed
  have agree: "?r' (frameAddr c (walk c r1 0 q') i) = r1 (frameAddr c (walk c r1 0 q') i)"
    if "tablePath c r1 q'" "i < ?P" for q' i
  proof -
    from that(1) have q': "vp c q'" "length q' < TABLES_DEPTH c" "q' = [] \<or> walk c r1 0 q' \<noteq> 0"
      by (auto simp: tablePath_def)
    then have ne: "q' \<noteq> pf" using pf(2) by auto
    have w: "walk c r1 0 q' = walk c ?r 0 q'" using W1[OF q'(1)] q'(2) ne by simp
    have "nodePath c ?r q'" using q' w by (auto simp: nodePath_def)
    from out[OF this ne that(2)] show ?thesis unfolding w by (rule r'_out)
  qed
  have W: "walk c ?r' 0 p = (if p = pf then 0 else walk c ?r 0 p)"
    if "vp c p" "length p \<le> TABLES_DEPTH c" for p
    using walk_agree[of c r1 ?r', OF agree that] W1[OF that] by simp
  have Z: "?r' (frameAddr c (walk c ?r 0 pf) i) = 0" if "i < ?P" for i
    unfolding pf(3) fa[OF that] r' using that by simp
  have R: "?r' a = 0" if "nat (m + 1) * ?P \<le> a" for a
    using r2[of a] t that by (auto simp: tree_inv_def)
  have t': "tree_inv c ?r' m {f}"
    using tree_inv_remove[OF t mpf W Z R] pf(3) by simp
  have mp: "mappedPath c ?r' p \<longleftrightarrow> mappedPath c ?r p \<and> p \<noteq> pf" for p
    using W by (rule mappedPath_walk_eq)
  have qne: "q \<noteq> pf" using q pf(2) by (auto simp: tablePath_def)
  have vq: "vp c q" "length q \<le> TABLES_DEPTH c" using q by (auto simp: tablePath_def)
  have wq: "walk c ?r' 0 q = walk c ?r 0 q" using W[OF vq] qne by simp
  then have tq': "tablePath c ?r' q" using q by (simp add: tablePath_def)
  have "walk c ?r 0 q \<noteq> f" using node_inj[OF t nodePath_table[OF q] npf] qne pf(3) by auto
  then have "event_ok c m (EvAlloc (walk c ?r 0 q) f)" using f_rng by simp
  moreover have "event_ok c m (EvWrite pa 0)"
    using node_addr_nat(2)[OF v t nq0 i0] pa by simp
  moreover have "event_ok c m (EvEvict n pg)" using n by simp
  moreover note log_ok_clearEvents[OF v n(1,4)]
  ultimately have "log_ok c m (effects (trace s'))" using l by (simp add: s'(3) tu log_ok_effects)
  then have l': "log_ok c m (trace s')" by (simp add: log_ok_effects)
  have sw': "swap_inv c s' X" unfolding swap_inv_def
  proof (intro allI impI)
    fix p assume a: "mappedPath c ?r' p \<and> length p = TABLES_DEPTH c \<and> pageFrom c 0 p \<notin> X"
    then have p: "mappedPath c ?r p" "p \<noteq> pf" using mp by simp_all
    then have "swap s (pageFrom c 0 p) = None" using sw a by (simp add: swap_inv_def)
    moreover have "pageFrom c 0 p \<noteq> pg"
      using pageFrom_inj[of c p pf 0] p pf(1,2,6) a by (auto simp: mappedPath_def)
    ultimately show "swap s' (pageFrom c 0 p) = None" by (simp add: s'(2))
  qed
  have pgX: "pg \<notin> X" using tun[OF pf(1,2)] pf(3,4,6) by auto
  have swpg: "swap s pg = None" using sw mpf pf(2,6) pgX by (simp add: swap_inv_def)
  have vm: "vmem c s' a = vmem c s a" if lt: "a < VIRTUAL_MEMORY_SIZE c" for a
  proof (cases "vaPath c a = pf")
    case True
    then have pg_a: "a div 2 ^ OFFSET_WIDTH c = pg" using pageFrom_vaPath[OF v lt] pf(6) by simp
    have o: "getOffset c a < ?P" by (rule getOffset_less[OF v])
    have "n * ?P + getOffset c a \<noteq> pa"
      using node_addr_neq[OF v t npf nq0 o i0] fa[OF o] pf(3) pa unfolding pf_eq by auto
    then have "vmem c s' a = ?r (n * ?P + getOffset c a)"
      by (simp add: vmem_def pg_a s'(2) tu)
    moreover have "vmem c s a = ?r (n * ?P + getOffset c a)"
      using swpg pf(3,4) by (simp add: vmem_def pg_a True fa[OF o])
    ultimately show ?thesis by simp
  next
    case False
    show ?thesis
    proof (rule vmem_cong)
      have "a div 2 ^ OFFSET_WIDTH c \<noteq> pg"
        using pageFrom_inj[of c "vaPath c a" pf 0] False pf(1,2,6) pageFrom_vaPath[OF v lt] vp_vaPath[OF v]
        by auto
      then show "swap s' (a div 2 ^ OFFSET_WIDTH c) = swap s (a div 2 ^ OFFSET_WIDTH c)" by (simp add: s'(2))
      show "walk c ?r' 0 (vaPath c a) = walk c ?r 0 (vaPath c a)"
        using W[OF vp_vaPath[OF v]] False by simp
      assume nz: "walk c ?r 0 (vaPath c a) \<noteq> 0"
      then have np: "nodePath c ?r (vaPath c a)" by (simp add: nodePath_def vp_vaPath[OF v])
      have "vaPath c a \<noteq> q0" using lq0 by (metis length_vaPath less_irrefl)
      from node_addr_neq[OF v t np nq0 getOffset_less[OF v] i0 this]
      have "r1 (frameAddr c (walk c ?r 0 (vaPath c a)) (getOffset c a)) =
            ?r (frameAddr c (walk c ?r 0 (vaPath c a)) (getOffset c a))" by (rule r1_1)
      then show "?r' (frameAddr c (walk c ?r 0 (vaPath c a)) (getOffset c a)) =
          ?r (frameAddr c (walk c ?r 0 (vaPath c a)) (getOffset c a))"
        using r'_out[OF out[OF np False getOffset_less[OF v]]] by simp
    qed
  qed
  have "alloc_post c s s' q" using tq' wq r2 vm unfolding alloc_post_def by metis
  then show ?thesis using t' l' sw' by (simp add: mid_inv_def)
qed

section \<open>findNewFrame and one iteration of the translator\<close>

lemma mid_inv_cong:
  assumes "ram s' = ram s" "swap s' = swap s" "effects (trace s') = effects (trace s)"
  shows "mid_inv c s' m H X = mid_inv c s m H X"
proof -
  have "log_ok c m (trace s') = log_ok c m (trace s)"
    using assms(3) log_ok_effects[of c m "trace s'"] log_ok_effects[of c m "trace s"] by simp
  then show ?thesis using assms(1,2) by (simp add: mid_inv_def swap_inv_def)
qed

lemma vmem_same:
  assumes "ram s' = ram s" "swap s' = swap s"
  shows "vmem c s' a = vmem c s a"
  by (rule vmem_cong) (simp_all add: assms)

lemma mid_inv_mono: "mid_inv c s m H X \<Longrightarrow> X \<subseteq> Y \<Longrightarrow> mid_inv c s m H Y"
  by (auto simp: mid_inv_def swap_inv_def)

lemma findNewFrame_post:
  assumes v: "valid_config c" and inv: "mid_inv c s m {} X"
    and q: "tablePath c (ram s) q"
    and tun: "\<And>p. vp c p \<Longrightarrow> length p = TABLES_DEPTH c \<Longrightarrow> pageFrom c 0 p \<in> X \<Longrightarrow> walk c (ram s) 0 p = 0"
    and res: "findNewFrame c s va (walk c (ram s) 0 q) = (f, s')"
  shows "\<exists>m'. m \<le> m' \<and> mid_inv c s' m' {f} X \<and> alloc_post c s s' q"
proof -
  let ?prot = "walk c (ram s) 0 q"
  note td = valid_TD[OF v]
  from inv have t: "tree_inv c (ram s) m {}" by (simp add: mid_inv_def)
  have mu: "maxUsed c (ram s) = m" by (rule maxUsed_eq[OF td t])
  have ob: "(f, ram s', swap s', effects (trace s')) =
      findNewFrame_spec c (ram s) (swap s) (effects (trace s)) va ?prot"
    using findNewFrame_refines[OF td, of s va ?prot] res by (simp add: observe_def)
  show ?thesis
  proof (cases "firstEmpty c (ram s) ?prot")
    case (Some x)
    obtain e pa where x: "x = (e, pa)" by (cases x)
    from ob Some x have eq: "f = e" "ram s' = (ram s)(pa := 0)" "swap s' = swap s"
      "effects (trace s') = EvAlloc ?prot e # EvWrite pa 0 # effects (trace s)"
      by (simp_all add: findNewFrame_spec_def)
    from tier1_post[OF v inv q Some[unfolded x] eq(2,3,4)] show ?thesis unfolding eq(1) by blast
  next
    case None
    show ?thesis
    proof (cases "m + 1 < int (NUM_FRAMES c)")
      case True
      from ob None True mu have eq: "f = m + 1" "ram s' = ram s" "swap s' = swap s"
        "effects (trace s') = EvAlloc ?prot (m + 1) # effects (trace s)"
        by (simp_all add: findNewFrame_spec_def)
      have "vmem c s' a = vmem c s a" for a by (rule vmem_same[OF eq(2,3)])
      then have "alloc_post c s s' q" using q eq(2) by (simp add: alloc_post_def)
      with tier2_post[OF v inv q True eq(2,3,4)] show ?thesis unfolding eq(1)
        by (intro exI[of _ "m + 1"]) simp
    next
      case False
      let ?L = "leafList c (ram s) (TABLES_DEPTH c - 1) 0 0"
      have full: "int (NUM_FRAMES c) \<le> m + 1" using False by simp
      from leaves_exist[OF v t full None q refl] obtain p where
        p: "vp c p" "length p = TABLES_DEPTH c" "walk c (ram s) 0 p \<noteq> 0" by blast
      have "Suc (TABLES_DEPTH c - 1) = TABLES_DEPTH c" using td by simp
      then have "(walk c (ram s) 0 p, entryAddr c (ram s) 0 p, pageFrom c 0 p) \<in> set ?L"
        unfolding leafList_iff using p by auto
      then have ne: "?L \<noteq> []" by auto
      have nz: "\<forall>x \<in> set ?L. fst x \<noteq> 0" using leafList_nonzero by blast
      from foldl_leafStep_first_max[OF ne nz, of c va] obtain k where
        k: "k < length ?L" "evictionChoice c (ram s) va = ?L ! k"
        unfolding evictionChoice_def by blast
      obtain ef pa pg where ch: "evictionChoice c (ram s) va = (ef, pa, pg)"
        by (cases "evictionChoice c (ram s) va") auto
      have mem: "(ef, pa, pg) \<in> set ?L" using k ch by (metis nth_mem)
      from ob None False mu ch have eq: "f = ef"
        "ram s' = clearedRam c ((ram s)(pa := 0)) (to_uint64 ef)"
        "swap s' = (swap s)(pg \<mapsto> (\<lambda>i. ((ram s)(pa := 0)) (to_uint64 ef * PAGE_SIZE c + i)))"
        "effects (trace s') = EvAlloc ?prot ef # clearEvents c (to_uint64 ef) @
            [EvEvict (to_uint64 ef) pg, EvWrite pa 0] @ effects (trace s)"
        by (simp_all add: findNewFrame_spec_def)
      from tier3_post[OF v inv q tun mem eq(2,3,4)] show ?thesis unfolding eq(1) by blast
    qed
  qed
qed

lemma translateStep_post:
  assumes v: "valid_config c" and lt: "va < VIRTUAL_MEMORY_SIZE c"
    and inv: "mid_inv c s m {} {va div 2 ^ OFFSET_WIDTH c}"
    and np: "qd = [] \<or> walk c (ram s) 0 qd \<noteq> 0"
    and sp: "vaPath c va = qd @ i # rest"
    and i: "i = getOffset c (va div 2 ^ (l * OFFSET_WIDTH c))"
    and res: "translateStep c va l (walk c (ram s) 0 qd, cf, s) = (add1', cf', s')"
  shows "\<exists>m'. m \<le> m' \<and> mid_inv c s' m' {} {va div 2 ^ OFFSET_WIDTH c} \<and>
           add1' = walk c (ram s') 0 (qd @ [i]) \<and> add1' \<noteq> 0 \<and> cf' = walk c (ram s') 0 qd \<and>
           (\<forall>a < VIRTUAL_MEMORY_SIZE c. vmem c s' a = vmem c s a)"
proof -
  let ?tgt = "va div 2 ^ OFFSET_WIDTH c"
  let ?prot = "walk c (ram s) 0 qd"
  let ?a0 = "frameAddr c ?prot i"
  have vpa: "vp c (vaPath c va)" by (rule vp_vaPath[OF v])
  then have vq: "vp c qd" and ip: "i < PAGE_SIZE c" and vr: "vp c rest" unfolding sp by simp_all
  have "length (qd @ i # rest) = TABLES_DEPTH c" unfolding sp[symmetric] by simp
  then have lq: "length qd < TABLES_DEPTH c" "length (qd @ [i]) \<le> TABLES_DEPTH c" by simp_all
  have tq: "tablePath c (ram s) qd" using vq lq np by (simp add: tablePath_def)
  have ws: "walk c (ram s) 0 (qd @ [i]) = ram s ?a0" using np by (auto simp: walk_snoc)
  define s1 where "s1 = s\<lparr>trace := EvRead ?a0 # trace s\<rparr>"
  have s1: "ram s1 = ram s" "swap s1 = swap s" "effects (trace s1) = effects (trace s)"
    by (simp_all add: s1_def effects_def)
  show ?thesis
  proof (cases "ram s ?a0 = 0")
    case False
    from res False have eq: "add1' = ram s ?a0" "cf' = ?prot" "s' = s1"
      by (auto simp: translateStep_def PMread_def Let_def i s1_def)
    have "mid_inv c s' m {} {?tgt}" unfolding eq(3) mid_inv_cong[OF s1] by (rule inv)
    moreover have "vmem c s' a = vmem c s a" for a unfolding eq(3) by (rule vmem_same[OF s1(1,2)])
    ultimately show ?thesis using eq False ws s1 by (intro exI[of _ m]) simp
  next
    case True
    obtain f s2 where fn: "findNewFrame c s1 va (walk c (ram s1) 0 qd) = (f, s2)"
      by (cases "findNewFrame c s1 va (walk c (ram s1) 0 qd)") auto
    from res True fn have eq: "add1' = f" "cf' = ?prot" "s' = PMwrite s2 ?a0 f"
      by (auto simp: translateStep_def PMread_def Let_def i s1_def split: prod.splits)
    have inv1: "mid_inv c s1 m {} {?tgt}" unfolding mid_inv_cong[OF s1] by (rule inv)
    have tq1: "tablePath c (ram s1) qd" using tq s1 by simp
    have wz: "walk c (ram s) 0 (vaPath c va) = 0"
      unfolding sp using walk_zero_ext[of "qd @ [i]" c "ram s" 0 rest] ws True by simp
    have tun: "walk c (ram s1) 0 p = 0"
      if "vp c p" "length p = TABLES_DEPTH c" "pageFrom c 0 p \<in> {?tgt}" for p
    proof -
      have "p = vaPath c va"
        using pageFrom_inj[OF that(1) vpa, of 0] that(2,3) pageFrom_vaPath[OF v lt] by simp
      then show ?thesis using wz s1 by simp
    qed
    from findNewFrame_post[OF v inv1 tq1 tun fn] obtain m' where
      m': "m \<le> m'" "mid_inv c s2 m' {f} {?tgt}" "alloc_post c s1 s2 qd" by blast
    from m'(2) have t2: "tree_inv c (ram s2) m' {f}" and l2: "log_ok c m' (trace s2)"
      and sw2: "swap_inv c s2 {?tgt}" by (simp_all add: mid_inv_def)
    from m'(3) have tq2: "tablePath c (ram s2) qd" and w2: "walk c (ram s2) 0 qd = ?prot"
      and ch: "\<And>a. ram s2 a \<noteq> ram s a \<Longrightarrow> ram s2 a = 0"
      and vm2: "\<And>a. a < VIRTUAL_MEMORY_SIZE c \<Longrightarrow> vmem c s2 a = vmem c s a"
      unfolding alloc_post_def s1 using vmem_same[OF s1(1,2)] by auto
    have un: "ram s2 (frameAddr c (walk c (ram s2) 0 qd) i) = 0"
      unfolding w2 using ch[of ?a0] True by auto
    have r0: "ram s' (frameAddr c (walk c (ram s2) 0 qd) i) = f"
      unfolding w2 eq(3) by (simp add: PMwrite_def)
    have r1: "ram s' a = ram s2 a" if "a \<noteq> frameAddr c (walk c (ram s2) 0 qd) i" for a
      using that unfolding w2 eq(3) by (simp add: PMwrite_def)
    have lk1: "tree_inv c (ram s') m' {}"
      by (rule tree_inv_link(1)[where r' = "ram s'", OF v t2 tq2 ip un r0]) (rule r1)
    have lk2: "walk c (ram s') 0 p = (if p = qd @ [i] then f else walk c (ram s2) 0 p)"
      if "vp c p" "length p \<le> TABLES_DEPTH c" for p
      by (rule tree_inv_link(2)[where r' = "ram s'", OF v t2 tq2 ip un r0 _ that]) (rule r1)
    have fH: "0 < f" "\<And>j. j < PAGE_SIZE c \<Longrightarrow> ram s2 (frameAddr c f j) = 0"
      "f \<le> m'" "m' < int (NUM_FRAMES c)"
      using t2 by (auto simp: tree_inv_def)
    have sws: "swap s' = swap s2" by (simp add: eq(3) PMwrite_def)
    have "event_ok c m' (EvWrite ?a0 f)"
      using node_addr_nat(2)[OF v t2 nodePath_table[OF tq2] ip] w2 by simp
    then have l': "log_ok c m' (trace s')" using l2 by (simp add: eq(3) PMwrite_def)
    have sw': "swap_inv c s' {?tgt}" unfolding swap_inv_def
    proof (intro allI impI)
      fix p assume a: "mappedPath c (ram s') p \<and> length p = TABLES_DEPTH c \<and> pageFrom c 0 p \<notin> {?tgt}"
      then have p: "vp c p" "length p \<le> TABLES_DEPTH c" by (simp_all add: mappedPath_def)
      have "p \<noteq> qd @ [i]"
      proof
        assume e: "p = qd @ [i]"
        have "length (qd @ i # rest) = TABLES_DEPTH c" unfolding sp[symmetric] by simp
        moreover have "length (qd @ [i]) = TABLES_DEPTH c" using a e by simp
        ultimately have "rest = []" by (cases rest) auto
        then have "p = vaPath c va" using e sp by simp
        then show False using a pageFrom_vaPath[OF v lt] by simp
      qed
      then have "walk c (ram s') 0 p = walk c (ram s2) 0 p" using lk2[OF p] by simp
      then have "mappedPath c (ram s2) p" using a by (simp add: mappedPath_def)
      then show "swap s' (pageFrom c 0 p) = None" using sw2 a sws by (simp add: swap_inv_def)
    qed
    have inv': "mid_inv c s' m' {} {?tgt}" using lk1 l' sw' by (simp add: mid_inv_def)
    have wf: "walk c (ram s') 0 (qd @ [i]) = f" using lk2[OF _ lq(2)] vq ip by simp
    have wq: "walk c (ram s') 0 qd = ?prot" using lk2[OF vq] lq(1) w2 by simp
    have vm: "vmem c s' a = vmem c s2 a" if alt: "a < VIRTUAL_MEMORY_SIZE c" for a
    proof (cases "vaPath c a = qd @ [i]")
      case same: True
      have wa2: "walk c (ram s2) 0 (vaPath c a) = 0"
        unfolding same using un tq2 by (auto simp: walk_snoc)
      have wa': "walk c (ram s') 0 (vaPath c a) = f" unfolding same by (rule wf)
      have o: "getOffset c a < PAGE_SIZE c" by (rule getOffset_less[OF v])
      have pn: "walk c (ram s2) 0 qd \<noteq> f" using node_frame[OF t2 nodePath_table[OF tq2]] by auto
      have "frameAddr c f (getOffset c a) \<noteq> frameAddr c (walk c (ram s2) 0 qd) i"
        using frameAddr_inj[OF v _ _ o _ _ ip, of f "walk c (ram s2) 0 qd"] fH pn
          node_frame[OF t2 nodePath_table[OF tq2]] by auto
      then have "ram s' (frameAddr c f (getOffset c a)) = 0" using r1 fH(2)[OF o] by simp
      then show ?thesis using wa2 wa' sws by (simp add: vmem_def split: option.splits)
    next
      case diff: False
      show ?thesis
      proof (rule vmem_cong)
        show "swap s' (a div 2 ^ OFFSET_WIDTH c) = swap s2 (a div 2 ^ OFFSET_WIDTH c)" by (simp add: sws)
        show "walk c (ram s') 0 (vaPath c a) = walk c (ram s2) 0 (vaPath c a)"
          using lk2[OF vp_vaPath[OF v], of a] diff by simp
        assume nz: "walk c (ram s2) 0 (vaPath c a) \<noteq> 0"
        then have npa: "nodePath c (ram s2) (vaPath c a)" by (simp add: nodePath_def vp_vaPath[OF v])
        have "vaPath c a \<noteq> qd" using lq(1) by (metis length_vaPath less_irrefl)
        from node_addr_neq[OF v t2 npa nodePath_table[OF tq2] getOffset_less[OF v] ip this]
        show "ram s' (frameAddr c (walk c (ram s2) 0 (vaPath c a)) (getOffset c a)) =
              ram s2 (frameAddr c (walk c (ram s2) 0 (vaPath c a)) (getOffset c a))" by (rule r1)
      qed
    qed
    show ?thesis using m'(1) inv' eq(1,2) wf wq fH(1) vm vm2 by (intro exI[of _ m']) simp
  qed
qed

section \<open>The translation loop\<close>

lemma data_frame_change:
  assumes v: "valid_config c" and t: "tree_inv c r m {}"
    and pf: "vp c pf" "length pf = TABLES_DEPTH c" "walk c r 0 pf \<noteq> 0"
    and out: "\<And>a. \<not> (nat (walk c r 0 pf) * PAGE_SIZE c \<le> a \<and>
                     a < nat (walk c r 0 pf) * PAGE_SIZE c + PAGE_SIZE c) \<Longrightarrow> r' a = r a"
  shows "tree_inv c r' m {}"
    and "\<And>p. vp c p \<Longrightarrow> length p \<le> TABLES_DEPTH c \<Longrightarrow> walk c r' 0 p = walk c r 0 p"
    and "\<And>p j. nodePath c r p \<Longrightarrow> p \<noteq> pf \<Longrightarrow> j < PAGE_SIZE c \<Longrightarrow>
           r' (frameAddr c (walk c r 0 p) j) = r (frameAddr c (walk c r 0 p) j)"
proof -
  let ?P = "PAGE_SIZE c"
  let ?f = "walk c r 0 pf"
  have td: "1 \<le> TABLES_DEPTH c" by (rule valid_TD[OF v])
  have npf: "nodePath c r pf" using pf by (simp add: nodePath_def)
  note ff = node_frame[OF t npf]
  show N: "r' (frameAddr c (walk c r 0 p) j) = r (frameAddr c (walk c r 0 p) j)"
    if "nodePath c r p" "p \<noteq> pf" "j < ?P" for p j
  proof -
    have "walk c r 0 p \<noteq> ?f" using node_inj[OF t that(1) npf] that(2) by auto
    then have "nat (walk c r 0 p) \<noteq> nat ?f" using node_frame[OF t that(1)] ff by auto
    then have "\<not> (nat ?f * ?P \<le> frameAddr c (walk c r 0 p) j \<and>
                 frameAddr c (walk c r 0 p) j < nat ?f * ?P + ?P)"
      unfolding node_addr_nat(1)[OF v t that(1,3)]
      using addr_in_frame[OF that(3), of "nat ?f" "nat (walk c r 0 p)"] by simp
    then show ?thesis by (rule out)
  qed
  have agree: "r' (frameAddr c (walk c r 0 q) i) = r (frameAddr c (walk c r 0 q) i)"
    if "tablePath c r q" "i < ?P" for q i
  proof -
    have "q \<noteq> pf" using that(1) pf(2) by (auto simp: tablePath_def)
    from N[OF nodePath_table[OF that(1)] this that(2)] show ?thesis .
  qed
  show W: "walk c r' 0 p = walk c r 0 p" if "vp c p" "length p \<le> TABLES_DEPTH c" for p
    using agree that by (rule walk_agree)
  have mp: "mappedPath c r' p \<longleftrightarrow> mappedPath c r p" for p
    using W[of p] by (auto simp: mappedPath_def)
  have w: "mappedPath c r' p \<Longrightarrow> walk c r' 0 p = walk c r 0 p" for p
    using W[of p] by (auto simp: mappedPath_def)
  from t have m: "0 \<le> m" "m < int (NUM_FRAMES c)"
    and inj: "\<And>p q. mappedPath c r p \<Longrightarrow> mappedPath c r q \<Longrightarrow> walk c r 0 p = walk c r 0 q \<Longrightarrow> p = q"
    and rng: "\<And>p. mappedPath c r p \<Longrightarrow> 0 < walk c r 0 p \<and> walk c r 0 p \<le> m"
    and dense: "\<And>f. 0 < f \<Longrightarrow> f \<le> m \<Longrightarrow> \<exists>p. mappedPath c r p \<and> walk c r 0 p = f"
    and R: "\<And>a. nat (m + 1) * ?P \<le> a \<Longrightarrow> r a = 0"
    unfolding tree_inv_def by blast+
  show "tree_inv c r' m {}" unfolding tree_inv_def
  proof (intro conjI allI impI ballI)
    show "0 \<le> m" "m < int (NUM_FRAMES c)" by fact+
  next
    fix p q assume "mappedPath c r' p \<and> mappedPath c r' q \<and> walk c r' 0 p = walk c r' 0 q"
    then show "p = q" using mp w inj by metis
  next
    fix p assume a: "mappedPath c r' p"
    then show "0 < walk c r' 0 p" "walk c r' 0 p \<le> m" using mp w rng by metis+
    show "walk c r' 0 p \<notin> {}" by simp
  next
    fix f assume "0 < f \<and> f \<le> m \<and> f \<notin> {}"
    then obtain p where "mappedPath c r p" "walk c r 0 p = f" using dense by blast
    then have "mappedPath c r' p \<and> walk c r' 0 p = f" using mp w by metis
    then show "\<exists>p. mappedPath c r' p \<and> walk c r' 0 p = f" by blast
  next
    fix f :: int assume "f \<in> {}"
    then show "0 < f" "f \<le> m" by simp_all
  next
    fix f :: int and i assume "f \<in> {}"
    then show "r' (frameAddr c f i) = 0" by simp
  next
    fix a assume a: "nat (m + 1) * ?P \<le> a"
    have "Suc (nat ?f) \<le> nat (m + 1)" using ff by linarith
    then have "Suc (nat ?f) * ?P \<le> nat (m + 1) * ?P" by (rule mult_le_mono1)
    then have "\<not> (nat ?f * ?P \<le> a \<and> a < nat ?f * ?P + ?P)" using a by simp
    then have "r' a = r a" by (rule out)
    then show "r' a = 0" using R[OF a] by simp
  qed
qed

lemma translateLoop_post:
  assumes v: "valid_config c" and lt: "va < VIRTUAL_MEMORY_SIZE c"
  shows "mid_inv c s m {} {va div 2 ^ OFFSET_WIDTH c} \<Longrightarrow> qd = [] \<or> walk c (ram s) 0 qd \<noteq> 0 \<Longrightarrow>
     vaPath c va = qd @ levelPath c va l \<Longrightarrow>
     translateLoop c va l (walk c (ram s) 0 qd, cf, s) = (add1', cf', s') \<Longrightarrow>
     \<exists>m'. m \<le> m' \<and> mid_inv c s' m' {} {va div 2 ^ OFFSET_WIDTH c} \<and>
          add1' = walk c (ram s') 0 (vaPath c va) \<and>
          (0 < l \<longrightarrow> add1' \<noteq> 0 \<and> cf' = walk c (ram s') 0 (butlast (vaPath c va))) \<and>
          (l = 0 \<longrightarrow> cf' = cf \<and> s' = s) \<and>
          (\<forall>a < VIRTUAL_MEMORY_SIZE c. vmem c s' a = vmem c s a)"
proof (induction l arbitrary: qd cf s m)
  case 0
  then show ?case by (intro exI[of _ m]) auto
next
  case (Suc l)
  let ?i = "getOffset c (va div 2 ^ (Suc l * OFFSET_WIDTH c))"
  obtain a1 c1 s1 where st: "translateStep c va (Suc l) (walk c (ram s) 0 qd, cf, s) = (a1, c1, s1)"
    by (cases "translateStep c va (Suc l) (walk c (ram s) 0 qd, cf, s)") auto
  have sp: "vaPath c va = qd @ ?i # levelPath c va l" using Suc.prems(3) by (simp only: levelPath_Suc)
  from translateStep_post[OF v lt Suc.prems(1,2) sp refl st] obtain m1 where
    m1: "m \<le> m1" "mid_inv c s1 m1 {} {va div 2 ^ OFFSET_WIDTH c}"
      "a1 = walk c (ram s1) 0 (qd @ [?i])" "a1 \<noteq> 0" "c1 = walk c (ram s1) 0 qd"
      "\<And>a. a < VIRTUAL_MEMORY_SIZE c \<Longrightarrow> vmem c s1 a = vmem c s a" by blast
  have lp: "translateLoop c va l (walk c (ram s1) 0 (qd @ [?i]), c1, s1) = (add1', cf', s')"
    using Suc.prems(4) st m1(3) by (simp only: translateLoop_Suc)
  have np1: "qd @ [?i] = [] \<or> walk c (ram s1) 0 (qd @ [?i]) \<noteq> 0" using m1(3,4) by simp
  have sp1: "vaPath c va = (qd @ [?i]) @ levelPath c va l" using sp by simp
  from Suc.IH[OF m1(2) np1 sp1 lp] obtain m' where
    m': "m1 \<le> m'" "mid_inv c s' m' {} {va div 2 ^ OFFSET_WIDTH c}"
      "add1' = walk c (ram s') 0 (vaPath c va)"
      "0 < l \<Longrightarrow> add1' \<noteq> 0 \<and> cf' = walk c (ram s') 0 (butlast (vaPath c va))"
      "l = 0 \<Longrightarrow> cf' = c1 \<and> s' = s1"
      "\<And>a. a < VIRTUAL_MEMORY_SIZE c \<Longrightarrow> vmem c s' a = vmem c s1 a" by blast
  have fin: "add1' \<noteq> 0 \<and> cf' = walk c (ram s') 0 (butlast (vaPath c va))"
  proof (cases "l = 0")
    case True
    then have "vaPath c va = qd @ [?i]" using sp by simp
    then show ?thesis using m'(3) m'(5)[OF True] m1(3,4,5) by (simp add: butlast_append)
  next
    case False
    then show ?thesis using m'(4) by simp
  qed
  show ?case using m1(1) m'(1,2,3) fin m1(6) m'(6) by (intro exI[of _ m']) simp
qed

section \<open>translateVirtualAdd\<close>

lemma last_levelPath: "last (levelPath c va (Suc l)) = getOffset c (va div 2 ^ OFFSET_WIDTH c)"
proof (induction l)
  case 0
  then show ?case by (simp add: levelPath_Suc)
next
  case (Suc l)
  have "levelPath c va (Suc l) \<noteq> []" by (simp add: levelPath_Suc)
  then show ?case using Suc by (simp add: levelPath_Suc[of c va "Suc l"])
qed

lemma vaPath_last:
  assumes "1 \<le> TABLES_DEPTH c"
  shows "vaPath c va = butlast (vaPath c va) @ [getOffset c (va div 2 ^ OFFSET_WIDTH c)]"
proof -
  from assms obtain l where l: "TABLES_DEPTH c = Suc l" by (cases "TABLES_DEPTH c") auto
  have "vaPath c va \<noteq> []" unfolding vaPath_def l by (simp add: levelPath_Suc)
  moreover have "last (vaPath c va) = getOffset c (va div 2 ^ OFFSET_WIDTH c)"
    unfolding vaPath_def l by (rule last_levelPath)
  ultimately show ?thesis by (metis append_butlast_last_id)
qed

lemma page_offset:
  assumes v: "valid_config c" and "a div 2 ^ OFFSET_WIDTH c = b div 2 ^ OFFSET_WIDTH c"
    "getOffset c a = getOffset c b"
  shows "a = b"
proof -
  have "a mod 2 ^ OFFSET_WIDTH c = b mod 2 ^ OFFSET_WIDTH c"
    using assms(3) by (simp add: getOffset_valid[OF v] PAGE_SIZE_def)
  then show ?thesis using assms(2) by (metis div_mult_mod_eq)
qed

lemma translateVirtualAdd_post:
  assumes v: "valid_config c" and lt: "va < VIRTUAL_MEMORY_SIZE c"
    and inv: "mid_inv c s m {} {}"
    and res: "translateVirtualAdd c s va = (frame, s')"
  shows "\<exists>m'. m \<le> m' \<and> mid_inv c s' m' {} {} \<and> frame = walk c (ram s') 0 (vaPath c va) \<and> frame \<noteq> 0 \<and>
           (\<forall>a < VIRTUAL_MEMORY_SIZE c. vmem c s' a = vmem c s a)"
proof -
  let ?tgt = "va div 2 ^ OFFSET_WIDTH c"
  let ?P = "PAGE_SIZE c"
  let ?pf = "vaPath c va"
  note td = valid_TD[OF v]
  obtain a1 cf s2 where lp: "translateLoop c va (TABLES_DEPTH c) (walk c (ram s) 0 [], 0, s) = (a1, cf, s2)"
    by (cases "translateLoop c va (TABLES_DEPTH c) (walk c (ram s) 0 [], 0, s)") auto
  have inv0: "mid_inv c s m {} {?tgt}" using inv by (rule mid_inv_mono) simp
  have sp: "?pf = [] @ levelPath c va (TABLES_DEPTH c)" by (simp add: vaPath_def)
  from translateLoop_post[OF v lt inv0 _ sp lp] td obtain m2 where
    m2: "m \<le> m2" "mid_inv c s2 m2 {} {?tgt}" "a1 = walk c (ram s2) 0 ?pf" "a1 \<noteq> 0"
      "cf = walk c (ram s2) 0 (butlast ?pf)"
      "\<And>a. a < VIRTUAL_MEMORY_SIZE c \<Longrightarrow> vmem c s2 a = vmem c s a" by auto
  from m2(2) have t2: "tree_inv c (ram s2) m2 {}" and l2: "log_ok c m2 (trace s2)"
    and sw2: "swap_inv c s2 {?tgt}" by (simp_all add: mid_inv_def)
  have vpf: "vp c ?pf" "length ?pf = TABLES_DEPTH c" by (simp_all add: vp_vaPath[OF v])
  have wnz: "walk c (ram s2) 0 ?pf \<noteq> 0" using m2(3,4) by simp
  have npf: "nodePath c (ram s2) ?pf" using vpf wnz by (simp add: nodePath_def)
  note ff = node_frame[OF t2 npf]
  define n where "n = nat a1"
  have n: "n < NUM_FRAMES c" "int n = a1" "0 < n" "int n \<le> m2" "n = nat (walk c (ram s2) 0 ?pf)"
    using ff m2(3,4) unfolding n_def by linarith+
  have tu: "to_uint64 a1 = n" using to_uint64_nat[OF v n(1)] n(2) by simp
  define s3 where "s3 = PMrestore c s2 n ?tgt"
  have out: "ram s3 a = ram s2 a"
    if "\<not> (nat (walk c (ram s2) 0 ?pf) * ?P \<le> a \<and> a < nat (walk c (ram s2) 0 ?pf) * ?P + ?P)" for a
    using that unfolding n(5)[symmetric] by (auto simp: s3_def PMrestore_def split: option.splits)
  have t3: "tree_inv c (ram s3) m2 {}"
    by (rule data_frame_change(1)[where r' = "ram s3", OF v t2 vpf wnz]) (rule out)
  have W: "walk c (ram s3) 0 p = walk c (ram s2) 0 p" if "vp c p" "length p \<le> TABLES_DEPTH c" for p
    by (rule data_frame_change(2)[where r' = "ram s3", OF v t2 vpf wnz _ that]) (rule out)
  have N: "ram s3 (frameAddr c (walk c (ram s2) 0 p) j) = ram s2 (frameAddr c (walk c (ram s2) 0 p) j)"
    if "nodePath c (ram s2) p" "p \<noteq> ?pf" "j < ?P" for p j
    by (rule data_frame_change(3)[where r' = "ram s3", OF v t2 vpf wnz _ that]) (rule out)
  have sw3: "swap s3 = (swap s2)(?tgt := None)"
    by (auto simp: s3_def PMrestore_def split: option.splits)
  have tr3: "trace s3 = EvRestore n ?tgt # trace s2"
    by (simp add: s3_def PMrestore_def split: option.splits)
  have l3: "log_ok c m2 (trace s3)" using l2 n by (simp add: tr3)
  have mp: "mappedPath c (ram s3) p \<longleftrightarrow> mappedPath c (ram s2) p" for p
    using W[of p] by (auto simp: mappedPath_def)
  have swi3: "swap_inv c s3 {}" unfolding swap_inv_def
  proof (intro allI impI)
    fix p assume a: "mappedPath c (ram s3) p \<and> length p = TABLES_DEPTH c \<and> pageFrom c 0 p \<notin> {}"
    show "swap s3 (pageFrom c 0 p) = None"
    proof (cases "pageFrom c 0 p = ?tgt")
      case True
      then show ?thesis by (simp add: sw3)
    next
      case False
      then have "swap s2 (pageFrom c 0 p) = None" using sw2 a mp by (simp add: swap_inv_def)
      then show ?thesis by (simp add: sw3)
    qed
  qed
  have inv3: "mid_inv c s3 m2 {} {}" using t3 l3 swi3 by (simp add: mid_inv_def)
  have faf: "frameAddr c a1 j = n * ?P + j" if "j < ?P" for j
    using frameAddr_nat[OF v that n(1)] n(2) by simp
  have vm3: "vmem c s3 a = vmem c s2 a" if alt: "a < VIRTUAL_MEMORY_SIZE c" for a
  proof (cases "a div 2 ^ OFFSET_WIDTH c = ?tgt")
    case True
    then have pa: "vaPath c a = ?pf" using vaPath_eq_iff[OF v alt lt] by simp
    have o: "getOffset c a < ?P" by (rule getOffset_less[OF v])
    have w3: "walk c (ram s3) 0 ?pf = a1" using W[OF vpf(1)] vpf(2) m2(3) by simp
    show ?thesis
    proof (cases "swap s2 ?tgt")
      case None
      then have "ram s3 = ram s2" "swap s3 = swap s2" by (simp_all add: s3_def PMrestore_def)
      then show ?thesis by (rule vmem_same)
    next
      case (Some w)
      then have "ram s3 (n * ?P + getOffset c a) = w (getOffset c a)"
        using o by (simp add: s3_def PMrestore_def)
      then have "vmem c s3 a = w (getOffset c a)"
        using m2(4) by (simp add: vmem_def True sw3 pa w3 faf[OF o])
      moreover have "vmem c s2 a = w (getOffset c a)" using Some by (simp add: vmem_def True)
      ultimately show ?thesis by simp
    qed
  next
    case False
    then have ne: "vaPath c a \<noteq> ?pf" using vaPath_eq_iff[OF v alt lt] by simp
    show ?thesis
    proof (rule vmem_cong)
      show "swap s3 (a div 2 ^ OFFSET_WIDTH c) = swap s2 (a div 2 ^ OFFSET_WIDTH c)"
        using False by (simp add: sw3)
      show "walk c (ram s3) 0 (vaPath c a) = walk c (ram s2) 0 (vaPath c a)"
        by (rule W) (simp_all add: vp_vaPath[OF v])
      assume "walk c (ram s2) 0 (vaPath c a) \<noteq> 0"
      then have "nodePath c (ram s2) (vaPath c a)" by (simp add: nodePath_def vp_vaPath[OF v])
      then show "ram s3 (frameAddr c (walk c (ram s2) 0 (vaPath c a)) (getOffset c a)) =
          ram s2 (frameAddr c (walk c (ram s2) 0 (vaPath c a)) (getOffset c a))"
        using ne getOffset_less[OF v] by (rule N)
    qed
  qed
  let ?il = "getOffset c ?tgt"
  have res': "(frame, s') = PMread s3 (frameAddr c cf ?il)"
    using res lp by (simp add: translateVirtualAdd_def tu s3_def)
  then have fr: "frame = ram s3 (frameAddr c cf ?il)" and s': "s' = s3\<lparr>trace := EvRead (frameAddr c cf ?il) # trace s3\<rparr>"
    by (simp_all add: PMread_def)
  have s'eq: "ram s' = ram s3" "swap s' = swap s3" "effects (trace s') = effects (trace s3)"
    by (simp_all add: s' effects_def)
  have vbl: "vp c (butlast ?pf)" "length (butlast ?pf) \<le> TABLES_DEPTH c"
    using vpf(1) by (auto simp: vp_def dest: in_set_butlastD)
  have cf3: "cf = walk c (ram s3) 0 (butlast ?pf)" using W[OF vbl] m2(5) by simp
  have w3: "walk c (ram s3) 0 (butlast ?pf @ [?il]) = a1"
    using W[OF vpf(1)] vpf(2) m2(3) vaPath_last[OF td, of va] by simp
  then have "ram s3 (frameAddr c (walk c (ram s3) 0 (butlast ?pf)) ?il) = a1"
    using m2(4) by (auto simp: walk_snoc split: if_splits)
  then have "frame = a1" using fr cf3 by simp
  moreover have "walk c (ram s') 0 ?pf = a1" using W[OF vpf(1)] vpf(2) m2(3) s'eq(1) by simp
  moreover have "mid_inv c s' m2 {} {}" unfolding mid_inv_cong[OF s'eq] by (rule inv3)
  moreover have "vmem c s' a = vmem c s a" if "a < VIRTUAL_MEMORY_SIZE c" for a
    using vmem_same[OF s'eq(1,2), of c a] vm3[OF that] m2(6)[OF that] by simp
  ultimately show ?thesis using m2(1,4) by (intro exI[of _ m2]) simp
qed

section \<open>VMread, VMwrite and sequences of calls\<close>

lemma VMS_pos: "0 < VIRTUAL_MEMORY_SIZE c"
  by (simp add: VIRTUAL_MEMORY_SIZE_def)

lemma out_of_range: "\<not> va < VIRTUAL_MEMORY_SIZE c \<Longrightarrow> va > VIRTUAL_MEMORY_SIZE c - 1"
  using VMS_pos[of c] by linarith

lemma in_range: "va < VIRTUAL_MEMORY_SIZE c \<Longrightarrow> \<not> va > VIRTUAL_MEMORY_SIZE c - 1"
  by simp

lemma mapped_vmem:
  assumes v: "valid_config c" and lt: "va < VIRTUAL_MEMORY_SIZE c" and inv: "mid_inv c s m {} {}"
    and nz: "walk c (ram s) 0 (vaPath c va) \<noteq> 0"
  shows "swap s (va div 2 ^ OFFSET_WIDTH c) = None"
    and "vmem c s va = ram s (frameAddr c (walk c (ram s) 0 (vaPath c va)) (getOffset c va))"
proof -
  have "mappedPath c (ram s) (vaPath c va)"
    using nz vp_vaPath[OF v, of va] valid_TD[OF v] by (auto simp: mappedPath_def)
  then show "swap s (va div 2 ^ OFFSET_WIDTH c) = None"
    using inv pageFrom_vaPath[OF v lt] by (auto simp: mid_inv_def swap_inv_def)
  then show "vmem c s va = ram s (frameAddr c (walk c (ram s) 0 (vaPath c va)) (getOffset c va))"
    using nz by (simp add: vmem_def)
qed

lemma VMread_post:
  assumes v: "valid_config c" and lt: "va < VIRTUAL_MEMORY_SIZE c" and inv: "mid_inv c s m {} {}"
  shows "fst (VMread c s va) = 1 \<and> fst (snd (VMread c s va)) = Some (vmem c s va) \<and>
         (\<exists>m'. m \<le> m' \<and> mid_inv c (snd (snd (VMread c s va))) m' {} {}) \<and>
         (\<forall>a < VIRTUAL_MEMORY_SIZE c. vmem c (snd (snd (VMread c s va))) a = vmem c s a)"
proof -
  obtain frame s1 where tr: "translateVirtualAdd c s va = (frame, s1)"
    by (cases "translateVirtualAdd c s va") auto
  from translateVirtualAdd_post[OF v lt inv tr] obtain m' where
    m': "m \<le> m'" "mid_inv c s1 m' {} {}" "frame = walk c (ram s1) 0 (vaPath c va)" "frame \<noteq> 0"
      "\<And>a. a < VIRTUAL_MEMORY_SIZE c \<Longrightarrow> vmem c s1 a = vmem c s a" by blast
  let ?A = "frameAddr c frame (getOffset c va)"
  define s2 where "s2 = s1\<lparr>trace := EvRead ?A # trace s1\<rparr>"
  have s2: "ram s2 = ram s1" "swap s2 = swap s1" "effects (trace s2) = effects (trace s1)"
    by (simp_all add: s2_def effects_def)
  have rd: "VMread c s va = (1, Some (ram s1 ?A), s2)"
    using tr in_range[OF lt] by (simp add: VMread_def PMread_def s2_def)
  have "vmem c s1 va = ram s1 ?A" using mapped_vmem(2)[OF v lt m'(2)] m'(3,4) by simp
  then have val: "ram s1 ?A = vmem c s va" using m'(5)[OF lt] by simp
  have inv2: "mid_inv c s2 m' {} {}" unfolding mid_inv_cong[OF s2] by (rule m'(2))
  have "vmem c s2 a = vmem c s a" if "a < VIRTUAL_MEMORY_SIZE c" for a
    using vmem_same[OF s2(1,2), of c a] m'(5)[OF that] by simp
  then show ?thesis using val inv2 m'(1) unfolding rd by auto
qed

lemma VMwrite_post:
  assumes v: "valid_config c" and lt: "va < VIRTUAL_MEMORY_SIZE c" and inv: "mid_inv c s m {} {}"
  shows "fst (VMwrite c s va x) = 1 \<and>
         (\<exists>m'. m \<le> m' \<and> mid_inv c (snd (VMwrite c s va x)) m' {} {}) \<and>
         (\<forall>a < VIRTUAL_MEMORY_SIZE c. vmem c (snd (VMwrite c s va x)) a = (if a = va then x else vmem c s a))"
proof -
  let ?P = "PAGE_SIZE c"
  let ?pf = "vaPath c va"
  obtain frame s1 where tr: "translateVirtualAdd c s va = (frame, s1)"
    by (cases "translateVirtualAdd c s va") auto
  from translateVirtualAdd_post[OF v lt inv tr] obtain m' where
    m': "m \<le> m'" "mid_inv c s1 m' {} {}" "frame = walk c (ram s1) 0 ?pf" "frame \<noteq> 0"
      "\<And>a. a < VIRTUAL_MEMORY_SIZE c \<Longrightarrow> vmem c s1 a = vmem c s a" by blast
  let ?A = "frameAddr c frame (getOffset c va)"
  define s2 where "s2 = PMwrite s1 ?A x"
  have wr: "VMwrite c s va x = (1, s2)"
    using tr in_range[OF lt] by (simp add: VMwrite_def s2_def)
  from m'(2) have t1: "tree_inv c (ram s1) m' {}" and l1: "log_ok c m' (trace s1)"
    and sw1: "swap_inv c s1 {}" by (simp_all add: mid_inv_def)
  have vpf: "vp c ?pf" "length ?pf = TABLES_DEPTH c" by (simp_all add: vp_vaPath[OF v])
  have wnz: "walk c (ram s1) 0 ?pf \<noteq> 0" using m'(3,4) by simp
  have npf: "nodePath c (ram s1) ?pf" using vpf wnz by (simp add: nodePath_def)
  have o: "getOffset c va < ?P" by (rule getOffset_less[OF v])
  have A: "?A = nat (walk c (ram s1) 0 ?pf) * ?P + getOffset c va"
    "?A < nat (m' + 1) * ?P"
    using node_addr_nat[OF v t1 npf o] m'(3) by simp_all
  have r2: "ram s2 a = (if a = ?A then x else ram s1 a)" for a by (simp add: s2_def PMwrite_def)
  have out: "ram s2 a = ram s1 a"
    if "\<not> (nat (walk c (ram s1) 0 ?pf) * ?P \<le> a \<and> a < nat (walk c (ram s1) 0 ?pf) * ?P + ?P)" for a
  proof -
    have "a \<noteq> ?A" using that o unfolding A(1) by auto
    then show ?thesis by (simp add: r2)
  qed
  have t2: "tree_inv c (ram s2) m' {}"
    by (rule data_frame_change(1)[where r' = "ram s2", OF v t1 vpf wnz]) (rule out)
  have W: "walk c (ram s2) 0 p = walk c (ram s1) 0 p" if "vp c p" "length p \<le> TABLES_DEPTH c" for p
    by (rule data_frame_change(2)[where r' = "ram s2", OF v t1 vpf wnz _ that]) (rule out)
  have N: "ram s2 (frameAddr c (walk c (ram s1) 0 p) j) = ram s1 (frameAddr c (walk c (ram s1) 0 p) j)"
    if "nodePath c (ram s1) p" "p \<noteq> ?pf" "j < ?P" for p j
    by (rule data_frame_change(3)[where r' = "ram s2", OF v t1 vpf wnz _ that]) (rule out)
  have sws: "swap s2 = swap s1" by (simp add: s2_def PMwrite_def)
  have l2: "log_ok c m' (trace s2)" using l1 A(2) by (simp add: s2_def PMwrite_def)
  have mp: "mappedPath c (ram s2) p \<longleftrightarrow> mappedPath c (ram s1) p" for p
    using W[of p] by (auto simp: mappedPath_def)
  have sw2: "swap_inv c s2 {}" using sw1 by (simp add: swap_inv_def mp sws)
  have inv2: "mid_inv c s2 m' {} {}" using t2 l2 sw2 by (simp add: mid_inv_def)
  have w2: "walk c (ram s2) 0 ?pf = frame" using W[OF vpf(1)] vpf(2) m'(3) by simp
  have vm_va: "vmem c s2 va = x"
    using mapped_vmem(2)[OF v lt inv2] w2 m'(4) by (simp add: r2)
  have vm_other: "vmem c s2 a = vmem c s1 a" if alt: "a < VIRTUAL_MEMORY_SIZE c" and ne: "a \<noteq> va" for a
  proof (rule vmem_cong)
    show "swap s2 (a div 2 ^ OFFSET_WIDTH c) = swap s1 (a div 2 ^ OFFSET_WIDTH c)" by (simp add: sws)
    show "walk c (ram s2) 0 (vaPath c a) = walk c (ram s1) 0 (vaPath c a)"
      by (rule W) (simp_all add: vp_vaPath[OF v])
    assume nz: "walk c (ram s1) 0 (vaPath c a) \<noteq> 0"
    then have npa: "nodePath c (ram s1) (vaPath c a)" by (simp add: nodePath_def vp_vaPath[OF v])
    show "ram s2 (frameAddr c (walk c (ram s1) 0 (vaPath c a)) (getOffset c a)) =
          ram s1 (frameAddr c (walk c (ram s1) 0 (vaPath c a)) (getOffset c a))"
    proof (cases "vaPath c a = ?pf")
      case False
      with npa show ?thesis using getOffset_less[OF v] by (rule N)
    next
      case True
      then have "a div 2 ^ OFFSET_WIDTH c = va div 2 ^ OFFSET_WIDTH c"
        using vaPath_eq_iff[OF v alt lt] by simp
      then have on: "getOffset c a \<noteq> getOffset c va" using page_offset[OF v, of a va] ne by auto
      note ff = node_frame[OF t1 npf]
      have "frameAddr c (walk c (ram s1) 0 ?pf) (getOffset c a) \<noteq> ?A"
        unfolding m'(3)
        using frameAddr_inj[OF v _ _ getOffset_less[OF v, of a] _ _ o, of "walk c (ram s1) 0 ?pf" "walk c (ram s1) 0 ?pf"]
          ff on by auto
      then show ?thesis unfolding True by (simp add: r2)
    qed
  qed
  have "vmem c s2 a = (if a = va then x else vmem c s a)" if "a < VIRTUAL_MEMORY_SIZE c" for a
    using vm_va vm_other[OF that] m'(5)[OF that] by simp
  then show ?thesis using inv2 m'(1) unfolding wr by auto
qed

lemma walk_zero_ram: "p \<noteq> [] \<Longrightarrow> walk c (\<lambda>_. 0) 0 p = 0"
  by (cases p) simp_all

lemma init_ram:
  assumes v: "valid_config c"
  shows "ram (VMinitialize c s) a = (if a < PAGE_SIZE c then 0 else ram s a)"
proof -
  have "0 < NUM_FRAMES c" using v by (simp add: valid_config_def)
  from clearedRam_apply[OF v this, of "ram s" a] show ?thesis
    by (simp add: VMinitialize_def clearFrame_obs)
qed

lemma init_inv:
  assumes v: "valid_config c"
  shows "mid_inv c (VMinitialize c pm_init) 0 {} {}"
    and "vmem c (VMinitialize c pm_init) a = 0"
proof -
  let ?s = "VMinitialize c pm_init"
  have nf: "0 < NUM_FRAMES c" using v by (simp add: valid_config_def)
  have r: "ram ?s = (\<lambda>_. 0)" using init_ram[OF v, of pm_init] by (auto simp: pm_init_def)
  have sw: "swap ?s = (\<lambda>_. None)" by (simp add: VMinitialize_def clearFrame_obs pm_init_def)
  have tr: "trace ?s = clearEvents c 0" by (simp add: VMinitialize_def clearFrame_obs pm_init_def)
  have nm: "\<not> mappedPath c (\<lambda>_. 0) p" for p using walk_zero_ram[of p c] by (auto simp: mappedPath_def)
  have "tree_inv c (ram ?s) 0 {}" unfolding r tree_inv_def using nf nm by simp
  moreover have "log_ok c 0 (trace ?s)" unfolding tr using log_ok_clearEvents[OF v nf, of 0] by simp
  moreover have "swap_inv c ?s {}" by (simp add: swap_inv_def sw)
  ultimately show "mid_inv c ?s 0 {} {}" by (simp add: mid_inv_def)
  have "vaPath c a \<noteq> []" using valid_TD[OF v] by (metis length_vaPath list.size(3) not_one_le_zero)
  then show "vmem c ?s a = 0" by (simp add: vmem_def sw r walk_zero_ram)
qed

lemma apply_op_post:
  assumes v: "valid_config c" and inv: "mid_inv c s m {} {}"
  shows "(\<exists>m'. m \<le> m' \<and> mid_inv c (apply_op c s op) m' {} {}) \<and>
         (\<forall>a < VIRTUAL_MEMORY_SIZE c. \<not> writes_to a op \<longrightarrow> vmem c (apply_op c s op) a = vmem c s a)"
proof (cases op)
  case (Read b)
  show ?thesis
  proof (cases "b < VIRTUAL_MEMORY_SIZE c")
    case True
    from VMread_post[OF v True inv] show ?thesis unfolding Read by simp
  next
    case False
    then have "VMread c s b = (0, None, s)" using out_of_range[of b c] by (simp add: VMread_def)
    then show ?thesis using inv unfolding Read by auto
  qed
next
  case (Write b x)
  show ?thesis
  proof (cases "b < VIRTUAL_MEMORY_SIZE c")
    case True
    from VMwrite_post[OF v True inv, of x] show ?thesis unfolding Write by auto
  next
    case False
    then have "VMwrite c s b x = (0, s)" using out_of_range[of b c] by (simp add: VMwrite_def)
    then show ?thesis using inv unfolding Write by auto
  qed
qed

lemma run_post:
  assumes v: "valid_config c"
  shows "mid_inv c s m {} {} \<Longrightarrow>
         (\<exists>m'. m \<le> m' \<and> mid_inv c (run c s ops) m' {} {}) \<and>
         (\<forall>a < VIRTUAL_MEMORY_SIZE c. (\<forall>op \<in> set ops. \<not> writes_to a op) \<longrightarrow> vmem c (run c s ops) a = vmem c s a)"
proof (induction ops arbitrary: s m)
  case Nil
  then show ?case by (auto simp: run_def)
next
  case (Cons op ops)
  from apply_op_post[OF v Cons.prems, of op] obtain m1 where
    m1: "m \<le> m1" "mid_inv c (apply_op c s op) m1 {} {}"
      "\<And>a. a < VIRTUAL_MEMORY_SIZE c \<Longrightarrow> \<not> writes_to a op \<Longrightarrow> vmem c (apply_op c s op) a = vmem c s a"
    by blast
  from Cons.IH[OF m1(2)] obtain m' where
    m': "m1 \<le> m'" "mid_inv c (run c (apply_op c s op) ops) m' {} {}"
      "\<And>a. a < VIRTUAL_MEMORY_SIZE c \<Longrightarrow> \<forall>op \<in> set ops. \<not> writes_to a op \<Longrightarrow>
         vmem c (run c (apply_op c s op) ops) a = vmem c (apply_op c s op) a"
    by blast
  have e: "run c s (op # ops) = run c (apply_op c s op) ops" by (simp add: run_def)
  show ?case unfolding e using m1(1,3) m'(1,2,3) by (intro conjI exI[of _ m']) auto
qed

lemma reachable_inv:
  assumes v: "valid_config c"
  shows "\<exists>m. mid_inv c (run c (VMinitialize c pm_init) ops) m {} {}"
  using run_post[OF v init_inv(1)[OF v], of ops] by blast

section \<open>What the log records\<close>

lemma log_ok_allocs:
  "log_ok c m es \<Longrightarrow> (q, f) \<in> set (allocs es) \<Longrightarrow> f \<noteq> q \<and> 0 < f"
  by (induction es rule: allocs.induct) auto

lemma log_ok_evictions:
  "log_ok c m es \<Longrightarrow> (f, p) \<in> set (evictions es) \<Longrightarrow> 0 < f"
  by (induction es rule: evictions.induct) auto

section \<open>Round trip\<close>

text \<open>
  C1. In a consistent configuration, start from the state that VMinitialize leaves on a
  zeroed memory and let any calls pre be made. Then for every address a below
  VIRTUAL_MEMORY_SIZE and every value x, VMwrite a x returns 1, and after any further
  calls ops none of which is a VMwrite to a (reads and writes of other addresses, whatever
  frames they evict or restore), VMread a returns 1 and stores x.
\<close>

theorem write_read_round_trip:
  assumes "valid_config c" and "a < VIRTUAL_MEMORY_SIZE c" and "\<forall>op \<in> set ops. \<not> writes_to a op"
  shows "fst (VMwrite c (run c (VMinitialize c pm_init) pre) a x) = 1 \<and>
         fst (VMread c (run c (snd (VMwrite c (run c (VMinitialize c pm_init) pre) a x)) ops) a) = 1 \<and>
         fst (snd (VMread c (run c (snd (VMwrite c (run c (VMinitialize c pm_init) pre) a x)) ops) a)) = Some x"
proof -
  let ?s0 = "run c (VMinitialize c pm_init) pre"
  let ?s1 = "snd (VMwrite c ?s0 a x)"
  let ?s2 = "run c ?s1 ops"
  note v = assms(1) and lt = assms(2)
  from reachable_inv[OF v, of pre] obtain m0 where m0: "mid_inv c ?s0 m0 {} {}" by blast
  from VMwrite_post[OF v lt m0, of x] obtain m1 where
    w: "fst (VMwrite c ?s0 a x) = 1" "mid_inv c ?s1 m1 {} {}" "vmem c ?s1 a = x"
    using lt by auto
  from run_post[OF v w(2), of ops] obtain m2 where
    r: "mid_inv c ?s2 m2 {} {}" "vmem c ?s2 a = vmem c ?s1 a"
    using lt assms(3) by blast
  from VMread_post[OF v lt r(1)] show ?thesis using w(1,3) r(2) by simp
qed

text \<open>
  An instance in the configuration c1, which has one frame for data: the write to address
  2 evicts the page of address 0 (frame 1, page 0), and the read of address 0 still
  finds 7.
\<close>

theorem write_read_round_trip_witness:
  "valid_config c1 \<and> 0 < VIRTUAL_MEMORY_SIZE c1 \<and> \<not> writes_to 0 (Write 2 9) \<and>
   evictions (trace (run c1 (snd (VMwrite c1 (run c1 (VMinitialize c1 pm_init) []) 0 7)) [Write 2 9])) = [(1, 0)] \<and>
   fst (VMread c1 (run c1 (snd (VMwrite c1 (run c1 (VMinitialize c1 pm_init) []) 0 7)) [Write 2 9]) 0) = 1 \<and>
   fst (snd (VMread c1 (run c1 (snd (VMwrite c1 (run c1 (VMinitialize c1 pm_init) []) 0 7)) [Write 2 9]) 0)) = Some 7"
proof -
  have v: "valid_config c1" by (rule valid_c1)
  have lt: "0 < VIRTUAL_MEMORY_SIZE c1" by (rule VMS_pos)
  have nw: "\<forall>op \<in> set [Write 2 9]. \<not> writes_to 0 op" by simp
  have ev: "evictions (trace (run c1 (snd (VMwrite c1 (run c1 (VMinitialize c1 pm_init) []) 0 7)) [Write 2 9])) = [(1, 0)]"
    by (simp add: run_def c1_def eval_defs)
  from write_read_round_trip[OF v lt nw, of "[]" 7] show ?thesis using v lt ev by simp
qed

section \<open>The page table is a tree\<close>

text \<open>
  C7. In every state reachable from VMinitialize by calls of VMread and VMwrite, in a
  consistent configuration: two paths of the page table that end in the same frame are the
  same path, the root counted as the end of the empty path (so no frame has two parent
  entries, no entry points back to the root or to a frame above it, and a frame holds one
  page at most); the pages of two addresses with different page numbers lie in different
  frames when the first is mapped; and after writing x to a and y to b, and any further
  calls that write to neither, reading a gives x and reading b gives y.
\<close>

theorem page_table_is_tree:
  assumes "valid_config c"
    and "a < VIRTUAL_MEMORY_SIZE c" and "b < VIRTUAL_MEMORY_SIZE c"
    and "a div 2 ^ OFFSET_WIDTH c \<noteq> b div 2 ^ OFFSET_WIDTH c"
    and "\<forall>op \<in> set rest. \<not> writes_to a op \<and> \<not> writes_to b op"
  shows "(nodePath c (ram (run c (VMinitialize c pm_init) ops)) p \<and>
          nodePath c (ram (run c (VMinitialize c pm_init) ops)) q \<and>
          walk c (ram (run c (VMinitialize c pm_init) ops)) 0 p =
          walk c (ram (run c (VMinitialize c pm_init) ops)) 0 q \<longrightarrow> p = q) \<and>
         (walk c (ram (run c (VMinitialize c pm_init) ops)) 0 (vaPath c a) \<noteq> 0 \<longrightarrow>
          walk c (ram (run c (VMinitialize c pm_init) ops)) 0 (vaPath c a) \<noteq>
          walk c (ram (run c (VMinitialize c pm_init) ops)) 0 (vaPath c b)) \<and>
         fst (snd (VMread c (run c (run c (VMinitialize c pm_init) ops) (Write a x # Write b y # rest)) a)) = Some x \<and>
         fst (snd (VMread c (run c (run c (VMinitialize c pm_init) ops) (Write a x # Write b y # rest)) b)) = Some y"
proof -
  let ?s = "run c (VMinitialize c pm_init) ops"
  let ?s' = "run c ?s (Write a x # Write b y # rest)"
  note v = assms(1) and a = assms(2) and b = assms(3)
  from reachable_inv[OF v, of ops] obtain m where m: "mid_inv c ?s m {} {}" by blast
  then have t: "tree_inv c (ram ?s) m {}" by (simp add: mid_inv_def)
  have inj: "nodePath c (ram ?s) p \<and> nodePath c (ram ?s) q \<and> walk c (ram ?s) 0 p = walk c (ram ?s) 0 q \<longrightarrow> p = q"
    using node_inj[OF t] by blast
  have ne: "vaPath c a \<noteq> vaPath c b" using vaPath_eq_iff[OF v a b] assms(4) by simp
  have ab: "a \<noteq> b" using assms(4) by auto
  have pages: "walk c (ram ?s) 0 (vaPath c a) \<noteq> walk c (ram ?s) 0 (vaPath c b)"
    if nz: "walk c (ram ?s) 0 (vaPath c a) \<noteq> 0"
  proof
    assume e: "walk c (ram ?s) 0 (vaPath c a) = walk c (ram ?s) 0 (vaPath c b)"
    have "nodePath c (ram ?s) (vaPath c a)" "nodePath c (ram ?s) (vaPath c b)"
      using nz e by (simp_all add: nodePath_def vp_vaPath[OF v])
    from node_inj[OF t this e] ne show False by simp
  qed
  let ?s1 = "snd (VMwrite c ?s a x)"
  let ?s2 = "snd (VMwrite c ?s1 b y)"
  from VMwrite_post[OF v a m, of x] obtain m1 where
    w1: "mid_inv c ?s1 m1 {} {}" "vmem c ?s1 a = x" using a by auto
  from VMwrite_post[OF v b w1(1), of y] obtain m2 where
    w2: "mid_inv c ?s2 m2 {} {}" "vmem c ?s2 a = x" "vmem c ?s2 b = y" using a b ab w1(2) by auto
  have e: "?s' = run c ?s2 rest" by (simp add: run_def)
  from run_post[OF v w2(1), of rest] obtain m3 where
    r: "mid_inv c ?s' m3 {} {}" "vmem c ?s' a = x" "vmem c ?s' b = y"
    unfolding e using a b assms(5) w2(2,3) by auto
  from VMread_post[OF v a r(1)] VMread_post[OF v b r(1)] show ?thesis using inj pages r(2,3) by simp
qed

text \<open>
  An instance in the configuration c2 (two levels, four frames): after writes to the
  addresses 0 and 4 the table at path [0] is frame 1 and the page at path [1, 0] is in
  frame 2, page 0 having been evicted; the writes of 5 to address 0 and of 9 to address 4
  are both read back after a write to address 6.
\<close>

theorem page_table_is_tree_witness:
  "valid_config c2 \<and> 0 < VIRTUAL_MEMORY_SIZE c2 \<and> 4 < VIRTUAL_MEMORY_SIZE c2 \<and>
   (0::nat) div 2 ^ OFFSET_WIDTH c2 \<noteq> 4 div 2 ^ OFFSET_WIDTH c2 \<and>
   walk c2 (ram (run c2 (VMinitialize c2 pm_init) [Write 0 7, Write 4 8])) 0 [0] = 1 \<and>
   walk c2 (ram (run c2 (VMinitialize c2 pm_init) [Write 0 7, Write 4 8])) 0 [1, 0] = 2 \<and>
   walk c2 (ram (run c2 (VMinitialize c2 pm_init) [Write 0 7, Write 4 8])) 0 (vaPath c2 0) = 0 \<and>
   fst (snd (VMread c2 (run c2 (run c2 (VMinitialize c2 pm_init) [Write 0 7, Write 4 8])
        [Write 0 5, Write 4 9, Write 6 1]) 0)) = Some 5 \<and>
   fst (snd (VMread c2 (run c2 (run c2 (VMinitialize c2 pm_init) [Write 0 7, Write 4 8])
        [Write 0 5, Write 4 9, Write 6 1]) 4)) = Some 9"
proof -
  have v: "valid_config c2" by (rule valid_c2)
  have lt: "0 < VIRTUAL_MEMORY_SIZE c2" "4 < VIRTUAL_MEMORY_SIZE c2"
    by (simp_all add: VIRTUAL_MEMORY_SIZE_def c2_def)
  have pg: "(0::nat) div 2 ^ OFFSET_WIDTH c2 \<noteq> 4 div 2 ^ OFFSET_WIDTH c2" by (simp add: c2_def)
  have nw: "\<forall>op \<in> set [Write 6 1]. \<not> writes_to 0 op \<and> \<not> writes_to 4 op" by simp
  have r: "map (ram (run c2 (VMinitialize c2 pm_init) [Write 0 7, Write 4 8])) [0, 1, 2, 3, 6, 7] = [1, 3, 0, 0, 2, 0]"
    by (simp add: run_def c2_def eval_defs)
  have w: "walk c2 (ram (run c2 (VMinitialize c2 pm_init) [Write 0 7, Write 4 8])) 0 [0] = 1"
    "walk c2 (ram (run c2 (VMinitialize c2 pm_init) [Write 0 7, Write 4 8])) 0 [1, 0] = 2"
    "walk c2 (ram (run c2 (VMinitialize c2 pm_init) [Write 0 7, Write 4 8])) 0 (vaPath c2 0) = 0"
    using r by (simp_all add: frameAddr_def to_uint64_def PAGE_SIZE_def c2_def vaPath_def levelPath_def
        getOffset_def TOTAL_BITS_NUM_def upt_rec)
  from page_table_is_tree[OF v lt pg nw, of "[Write 0 7, Write 4 8]" "[0]" "[1, 0]" 5 9]
  show ?thesis using v lt pg w by simp
qed

section \<open>The root frame\<close>

text \<open>
  C8. In a consistent configuration VMinitialize leaves every word of frame 0 equal to 0,
  whatever the memory held; and in every state reachable from VMinitialize on a zeroed
  memory by calls of VMread and VMwrite, no call of findNewFrame recorded in the log has
  returned frame 0 and no PMevict recorded in the log was given frame 0. The entry that
  findNewFrame zeroes is the parent entry of the frame it returns, so no entry is zeroed
  on behalf of frame 0 either.
\<close>

theorem root_frame_reserved:
  assumes "valid_config c"
  shows "(\<forall>i < PAGE_SIZE c. ram (VMinitialize c s0) (frameAddr c 0 i) = 0) \<and>
         0 \<notin> snd ` set (allocs (trace (run c (VMinitialize c pm_init) ops))) \<and>
         0 \<notin> fst ` set (evictions (trace (run c (VMinitialize c pm_init) ops)))"
proof -
  note v = assms
  let ?s = "run c (VMinitialize c pm_init) ops"
  have nf: "0 < NUM_FRAMES c" using v by (simp add: valid_config_def)
  have "ram (VMinitialize c s0) (frameAddr c 0 i) = 0" if "i < PAGE_SIZE c" for i
    using frameAddr_nat[OF v that nf] init_ram[OF v, of s0 i] that by simp
  moreover
  from reachable_inv[OF v, of ops] obtain m where "mid_inv c ?s m {} {}" by blast
  then have l: "log_ok c m (trace ?s)" by (simp add: mid_inv_def)
  have "0 \<notin> snd ` set (allocs (trace ?s))" using log_ok_allocs[OF l] by force
  moreover have "0 \<notin> fst ` set (evictions (trace ?s))" using log_ok_evictions[OF l] by force
  ultimately show ?thesis by blast
qed

text \<open>
  An instance in the configuration c2: VMinitialize clears the words 0 and 1 of a memory
  that holds 5 at address 2, and the three writes make five calls of findNewFrame, which
  return the frames 1, 2, 3, 2, 1, and one eviction, of frame 2.
\<close>

theorem root_frame_reserved_witness:
  "valid_config c2 \<and>
   map (ram (VMinitialize c2 garbage_state)) [0, 1, 2] = [0, 0, 5] \<and>
   map snd (allocs (trace (run c2 (VMinitialize c2 pm_init) [Write 0 7, Write 4 8, Write 6 1]))) = [1, 2, 3, 2, 1] \<and>
   evictions (trace (run c2 (VMinitialize c2 pm_init) [Write 0 7, Write 4 8, Write 6 1])) = [(2, 0)] \<and>
   0 \<notin> snd ` set (allocs (trace (run c2 (VMinitialize c2 pm_init) [Write 0 7, Write 4 8, Write 6 1]))) \<and>
   0 \<notin> fst ` set (evictions (trace (run c2 (VMinitialize c2 pm_init) [Write 0 7, Write 4 8, Write 6 1])))"
proof -
  have v: "valid_config c2" by (rule valid_c2)
  have g: "map (ram (VMinitialize c2 garbage_state)) [0, 1, 2] = [0, 0, 5]"
    by (simp add: garbage_state_def c2_def eval_defs)
  have al: "map snd (allocs (trace (run c2 (VMinitialize c2 pm_init) [Write 0 7, Write 4 8, Write 6 1]))) = [1, 2, 3, 2, 1]"
    by (simp add: run_def c2_def eval_defs)
  have ev: "evictions (trace (run c2 (VMinitialize c2 pm_init) [Write 0 7, Write 4 8, Write 6 1])) = [(2, 0)]"
    by (simp add: run_def c2_def eval_defs)
  from root_frame_reserved[OF v, of garbage_state "[Write 0 7, Write 4 8, Write 6 1]"]
  show ?thesis using v g al ev by simp
qed

section \<open>The protected frame\<close>

text \<open>
  C6. In every state reachable from VMinitialize on a zeroed memory by calls of VMread
  and VMwrite, in a consistent configuration, every call of findNewFrame that the log
  records returned a frame other than the protected frame (lastCreatedFrame) it was given.
  The frame returned is the empty table found, the fresh index, or the frame of the page
  evicted, so the protected frame is neither the empty-frame candidate nor the eviction
  candidate of its call.
\<close>

theorem protected_frame_not_selected:
  assumes "valid_config c"
  shows "list_all (\<lambda>(prot, f). f \<noteq> prot) (allocs (trace (run c (VMinitialize c pm_init) ops)))"
proof -
  let ?s = "run c (VMinitialize c pm_init) ops"
  from reachable_inv[OF assms, of ops] obtain m where "mid_inv c ?s m {} {}" by blast
  then have l: "log_ok c m (trace ?s)" by (simp add: mid_inv_def)
  show ?thesis unfolding list_all_iff using log_ok_allocs[OF l] by auto
qed

text \<open>
  An instance in the configuration c2. The second call of the write to address 4 is
  given the table it has just created, frame 3, which holds zeros only; it evicts page 0
  from frame 2 instead. The call of the write to address 6 is given frame 3 again and
  takes the table left empty by that eviction, frame 1.
\<close>

theorem protected_frame_not_selected_witness:
  "valid_config c2 \<and>
   allocs (trace (run c2 (VMinitialize c2 pm_init) [Write 0 7, Write 4 8, Write 6 1])) =
     [(3, 1), (3, 2), (0, 3), (1, 2), (0, 1)] \<and>
   list_all (\<lambda>(prot, f). f \<noteq> prot)
     (allocs (trace (run c2 (VMinitialize c2 pm_init) [Write 0 7, Write 4 8, Write 6 1])))"
proof -
  have v: "valid_config c2" by (rule valid_c2)
  have al: "allocs (trace (run c2 (VMinitialize c2 pm_init) [Write 0 7, Write 4 8, Write 6 1])) =
     [(3, 1), (3, 2), (0, 3), (1, 2), (0, 1)]"
    by (simp add: run_def c2_def eval_defs)
  from protected_frame_not_selected[OF v, of "[Write 0 7, Write 4 8, Write 6 1]"]
  show ?thesis using v al by simp
qed

section \<open>The page chosen for eviction\<close>

lemma getCyclicDist_spec_eq:
  assumes "valid_config c" "a < NUM_PAGES c" "b < NUM_PAGES c"
  shows "int (getCyclicDist c a b) = cyclicDist_spec c a b"
proof -
  have n: "NUM_PAGES c < 2 ^ 63" using assms(1) by (rule NUM_PAGES_bound)
  define d where "d = (if a > b then a - b else b - a)"
  have dn: "d < NUM_PAGES c" using assms by (auto simp: d_def)
  have di: "int d = \<bar>int a - int b\<bar>" by (auto simp: d_def)
  have r: "(NUM_PAGES c + 2 ^ 64 - d) mod 2 ^ 64 = NUM_PAGES c - d"
  proof -
    define K :: nat where "K = 2 ^ 64"
    have "NUM_PAGES c - d < K" using n by (simp add: K_def)
    moreover have "NUM_PAGES c + K - d = K + (NUM_PAGES c - d)" using dn by simp
    ultimately have "(NUM_PAGES c + K - d) mod K = NUM_PAGES c - d"
      by (simp only: mod_add_self1 mod_less)
    then show ?thesis by (simp only: K_def)
  qed
  have "getCyclicDist c a b = (if d < NUM_PAGES c - d then d else NUM_PAGES c - d)"
    unfolding getCyclicDist_def Let_def d_def[symmetric] r ..
  then have "int (getCyclicDist c a b) = min (int d) (int (NUM_PAGES c) - int d)"
    using dn by (auto simp: min_def)
  then show ?thesis by (simp add: di cyclicDist_spec_def)
qed

lemma pageFrom_bound:
  "vp c p \<Longrightarrow> pageFrom c 0 p < 2 ^ (length p * OFFSET_WIDTH c)"
proof (induction p rule: rev_induct)
  case Nil
  then show ?case by simp
next
  case (snoc i p)
  let ?W = "(2::nat) ^ OFFSET_WIDTH c"
  from snoc have ih: "pageFrom c 0 p < 2 ^ (length p * OFFSET_WIDTH c)" and i: "i < ?W"
    by (simp_all add: PAGE_SIZE_def)
  have "pageFrom c 0 p * ?W + i < pageFrom c 0 p * ?W + ?W" using i by simp
  also have "\<dots> = Suc (pageFrom c 0 p) * ?W" by simp
  also have "\<dots> \<le> 2 ^ (length p * OFFSET_WIDTH c) * ?W"
    using ih by (intro mult_le_mono1) simp
  also have "\<dots> = 2 ^ (length (p @ [i]) * OFFSET_WIDTH c)" by (simp add: power_add)
  finally show ?case by (simp only: pageFrom_snoc)
qed

lemma leaf_page_bound:
  assumes "1 \<le> TABLES_DEPTH c" "(f, pa, pg) \<in> set (leafList c r (TABLES_DEPTH c - 1) 0 0)"
  shows "pg < NUM_PAGES c"
proof -
  have "Suc (TABLES_DEPTH c - 1) = TABLES_DEPTH c" using assms(1) by simp
  with assms(2) obtain p where p: "vp c p" "length p = TABLES_DEPTH c" "pg = pageFrom c 0 p"
    unfolding leafList_iff by auto
  from pageFrom_bound[OF p(1)] show ?thesis by (simp add: p(2,3) NUM_PAGES_def)
qed

lemma target_page_bound:
  assumes "va < VIRTUAL_MEMORY_SIZE c"
  shows "va div 2 ^ OFFSET_WIDTH c < NUM_PAGES c"
proof -
  have "va < 2 ^ OFFSET_WIDTH c * 2 ^ (TABLES_DEPTH c * OFFSET_WIDTH c)"
    using assms by (simp add: VIRTUAL_MEMORY_SIZE_def power_add mult.commute)
  then show ?thesis by (simp add: less_mult_imp_div_less mult.commute NUM_PAGES_def)
qed

text \<open>
  C3. When the eviction tier is reached (no empty table frame, no fresh index) for an
  address below VIRTUAL_MEMORY_SIZE and some leaf-level mapping exists, findNewFrame
  selects the mapping at the first position k of the pre-order list of leaf mappings whose
  page number has the greatest distance d(a, b) = min(|a - b|, NUM_PAGES - |a - b|) to the
  target page number: no mapping is farther, every earlier one is strictly nearer. It
  zeroes the parent entry pa, calls PMevict with the frame and its page number pg (the
  backing store receives the contents of the frame), clears the frame and returns it; the
  effects logged are, in order, the write of 0 to pa, the eviction, the PAGE_SIZE writes of
  clearFrame and the return.
\<close>

theorem eviction_selects_farthest:
  assumes "valid_config c" and "va < VIRTUAL_MEMORY_SIZE c"
    and "firstEmpty c (ram s) prot = None"
    and "\<not> maxUsed c (ram s) + 1 < int (NUM_FRAMES c)"
    and "leafList c (ram s) (TABLES_DEPTH c - 1) 0 0 \<noteq> []"
  shows "\<exists>k f pa pg.
           k < length (leafList c (ram s) (TABLES_DEPTH c - 1) 0 0) \<and>
           leafList c (ram s) (TABLES_DEPTH c - 1) 0 0 ! k = (f, pa, pg) \<and>
           (\<forall>j < length (leafList c (ram s) (TABLES_DEPTH c - 1) 0 0).
              cyclicDist_spec c (va div 2 ^ OFFSET_WIDTH c)
                (snd (snd (leafList c (ram s) (TABLES_DEPTH c - 1) 0 0 ! j)))
              \<le> cyclicDist_spec c (va div 2 ^ OFFSET_WIDTH c) pg) \<and>
           (\<forall>j < k.
              cyclicDist_spec c (va div 2 ^ OFFSET_WIDTH c)
                (snd (snd (leafList c (ram s) (TABLES_DEPTH c - 1) 0 0 ! j)))
              < cyclicDist_spec c (va div 2 ^ OFFSET_WIDTH c) pg) \<and>
           observe (findNewFrame c s va prot) =
             (f, clearedRam c ((ram s)(pa := 0)) (to_uint64 f),
              (swap s)(pg \<mapsto> (\<lambda>i. ((ram s)(pa := 0)) (to_uint64 f * PAGE_SIZE c + i))),
              EvAlloc prot f # clearEvents c (to_uint64 f) @ [EvEvict (to_uint64 f) pg, EvWrite pa 0]
                @ effects (trace s))"
proof -
  let ?L = "leafList c (ram s) (TABLES_DEPTH c - 1) 0 0"
  let ?t = "va div 2 ^ OFFSET_WIDTH c"
  have td: "1 \<le> TABLES_DEPTH c" using assms(1) by (simp add: valid_config_def)
  have "\<forall>x \<in> set ?L. fst x \<noteq> 0" by (auto dest: leafList_nonzero)
  from foldl_leafStep_first_max[OF assms(5) this, of c va]
  obtain k where k: "k < length ?L" "evictionChoice c (ram s) va = ?L ! k"
    "\<forall>j < length ?L. leafDist c va (?L ! j) \<le> leafDist c va (?L ! k)"
    "\<forall>j < k. leafDist c va (?L ! j) < leafDist c va (?L ! k)"
    by (auto simp: evictionChoice_def)
  obtain f pa pg where e: "?L ! k = (f, pa, pg)" by (cases "?L ! k")
  have d: "int (leafDist c va (?L ! j)) = cyclicDist_spec c ?t (snd (snd (?L ! j)))" if "j < length ?L" for j
  proof -
    have "(fst (?L ! j), fst (snd (?L ! j)), snd (snd (?L ! j))) \<in> set ?L" using that by simp
    from leaf_page_bound[OF td this] show ?thesis
      unfolding leafDist_def
      by (intro getCyclicDist_spec_eq[OF assms(1) target_page_bound[OF assms(2)]])
  qed
  have dk: "int (leafDist c va (?L ! k)) = cyclicDist_spec c ?t pg" using d[OF k(1)] e by simp
  have le: "cyclicDist_spec c ?t (snd (snd (?L ! j))) \<le> cyclicDist_spec c ?t pg" if "j < length ?L" for j
    using k(3) that d[OF that] dk by (metis of_nat_le_iff)
  have lt: "cyclicDist_spec c ?t (snd (snd (?L ! j))) < cyclicDist_spec c ?t pg" if "j < k" for j
  proof -
    have "j < length ?L" using that k(1) by simp
    from d[OF this] k(4) that dk show ?thesis by (metis of_nat_less_iff)
  qed
  have "observe (findNewFrame c s va prot) =
             (f, clearedRam c ((ram s)(pa := 0)) (to_uint64 f),
              (swap s)(pg \<mapsto> (\<lambda>i. ((ram s)(pa := 0)) (to_uint64 f * PAGE_SIZE c + i))),
              EvAlloc prot f # clearEvents c (to_uint64 f) @ [EvEvict (to_uint64 f) pg, EvWrite pa 0]
                @ effects (trace s))"
    unfolding findNewFrame_refines[OF td] using e by (simp add: findNewFrame_spec_def assms(3,4) k(2))
  with k(1) e le lt show ?thesis by (intro exI[of _ k] exI[of _ f] exI[of _ pa] exI[of _ pg]) simp
qed

lemma ram_far_state: "ram far_state = (\<lambda>_. 0)(0 := 1, 1 := 2)"
  unfolding far_state_def by (rule ext) (simp add: c4_def eval_defs)

text \<open>
  Two instances in the configuration c4 (four pages, two frames for data). With the pages
  0 and 1 in the frames 1 and 2 and the target page 3, page 0 is at distance 1 (around
  the end of the page numbers) and page 1 at distance 2: the second leaf mapping, page 1,
  is evicted. With the pages 1 and 3 mapped and the target page 2 both are at distance 1,
  and the first, page 1, is evicted.
\<close>

theorem eviction_selects_farthest_witness:
  "valid_config c4 \<and> 12 < VIRTUAL_MEMORY_SIZE c4 \<and> 8 < VIRTUAL_MEMORY_SIZE c4 \<and>
   firstEmpty c4 (ram far_state) 0 = None \<and>
   \<not> maxUsed c4 (ram far_state) + 1 < int (NUM_FRAMES c4) \<and>
   leafList c4 (ram far_state) (TABLES_DEPTH c4 - 1) 0 0 = [(1, 0, 0), (2, 1, 1)] \<and>
   cyclicDist_spec c4 (12 div 2 ^ OFFSET_WIDTH c4) 0 = 1 \<and>
   cyclicDist_spec c4 (12 div 2 ^ OFFSET_WIDTH c4) 1 = 2 \<and>
   fst (findNewFrame c4 far_state 12 0) = 2 \<and>
   swap (snd (findNewFrame c4 far_state 12 0)) 1 \<noteq> None \<and>
   map (ram (snd (findNewFrame c4 far_state 12 0))) [8, 9, 10, 11] = [0, 0, 0, 0] \<and>
   ram (snd (findNewFrame c4 far_state 12 0)) 1 = 0 \<and>
   firstEmpty c4 (ram tie_state) 0 = None \<and>
   \<not> maxUsed c4 (ram tie_state) + 1 < int (NUM_FRAMES c4) \<and>
   leafList c4 (ram tie_state) (TABLES_DEPTH c4 - 1) 0 0 = [(1, 1, 1), (2, 3, 3)] \<and>
   cyclicDist_spec c4 (8 div 2 ^ OFFSET_WIDTH c4) 1 = 1 \<and>
   cyclicDist_spec c4 (8 div 2 ^ OFFSET_WIDTH c4) 3 = 1 \<and>
   fst (findNewFrame c4 tie_state 8 0) = 1"
proof -
  let ?L = "leafList c4 (ram far_state) (TABLES_DEPTH c4 - 1) 0 0"
  let ?T = "leafList c4 (ram tie_state) (TABLES_DEPTH c4 - 1) 0 0"
  have lt: "12 < VIRTUAL_MEMORY_SIZE c4" "8 < VIRTUAL_MEMORY_SIZE c4"
    by (simp_all add: VIRTUAL_MEMORY_SIZE_def c4_def)
  have e: "firstEmpty c4 (ram far_state) 0 = None"
    by (simp add: ram_far_state c4_def list_defs frameAddr_def to_uint64_def PAGE_SIZE_def upt_rec)
  have m: "\<not> maxUsed c4 (ram far_state) + 1 < int (NUM_FRAMES c4)"
    by (simp add: ram_far_state c4_def list_defs frameAddr_def to_uint64_def PAGE_SIZE_def upt_rec)
  have L: "?L = [(1, 0, 0), (2, 1, 1)]"
    by (simp add: ram_far_state c4_def list_defs frameAddr_def to_uint64_def PAGE_SIZE_def upt_rec)
  have d: "cyclicDist_spec c4 (12 div 2 ^ OFFSET_WIDTH c4) 0 = 1"
    "cyclicDist_spec c4 (12 div 2 ^ OFFSET_WIDTH c4) 1 = 2"
    by (simp_all add: c4_def cyclicDist_spec_def NUM_PAGES_def)
  have ne: "?L \<noteq> []" using L by simp
  from eviction_selects_farthest[OF valid_c4 lt(1) e m ne]
  obtain k f pa pg where k: "k < length ?L" "?L ! k = (f, pa, pg)"
     "\<forall>j < length ?L. cyclicDist_spec c4 (12 div 2 ^ OFFSET_WIDTH c4) (snd (snd (?L ! j)))
         \<le> cyclicDist_spec c4 (12 div 2 ^ OFFSET_WIDTH c4) pg"
     and o: "observe (findNewFrame c4 far_state 12 0) =
             (f, clearedRam c4 ((ram far_state)(pa := 0)) (to_uint64 f),
              (swap far_state)(pg \<mapsto> (\<lambda>i. ((ram far_state)(pa := 0)) (to_uint64 f * PAGE_SIZE c4 + i))),
              EvAlloc 0 f # clearEvents c4 (to_uint64 f) @ [EvEvict (to_uint64 f) pg, EvWrite pa 0]
                @ effects (trace far_state))"
    by blast
  have "k = 1"
  proof (rule ccontr)
    assume "k \<noteq> 1"
    then have k0: "k = 0" using k(1) L by simp
    then have "(f, pa, pg) = (1, 0, 0)" using k(2) L by simp
    moreover have "cyclicDist_spec c4 (12 div 2 ^ OFFSET_WIDTH c4) (snd (snd (?L ! 1)))
         \<le> cyclicDist_spec c4 (12 div 2 ^ OFFSET_WIDTH c4) pg" using k(3)[rule_format, of 1] L by simp
    ultimately show False using L d by simp
  qed
  then have f: "f = 2" "pa = 1" "pg = 1" using k(2) L by simp_all
  have far: "fst (findNewFrame c4 far_state 12 0) = 2"
    "swap (snd (findNewFrame c4 far_state 12 0)) 1 \<noteq> None"
    "map (ram (snd (findNewFrame c4 far_state 12 0))) [8, 9, 10, 11] = [0, 0, 0, 0]"
    "ram (snd (findNewFrame c4 far_state 12 0)) 1 = 0"
    using o unfolding f observe_def
    by (auto simp: clearedRam_def to_uint64_def c4_def PAGE_SIZE_def upt_rec)
  have e': "firstEmpty c4 (ram tie_state) 0 = None"
    by (simp add: ram_tie_state c4_def list_defs frameAddr_def to_uint64_def PAGE_SIZE_def upt_rec)
  have m': "\<not> maxUsed c4 (ram tie_state) + 1 < int (NUM_FRAMES c4)"
    by (simp add: ram_tie_state c4_def list_defs frameAddr_def to_uint64_def PAGE_SIZE_def upt_rec)
  have T: "?T = [(1, 1, 1), (2, 3, 3)]"
    by (simp add: ram_tie_state c4_def list_defs frameAddr_def to_uint64_def PAGE_SIZE_def upt_rec)
  have d': "cyclicDist_spec c4 (8 div 2 ^ OFFSET_WIDTH c4) 1 = 1"
    "cyclicDist_spec c4 (8 div 2 ^ OFFSET_WIDTH c4) 3 = 1"
    by (simp_all add: c4_def cyclicDist_spec_def NUM_PAGES_def)
  have ne': "?T \<noteq> []" using T by simp
  from eviction_selects_farthest[OF valid_c4 lt(2) e' m' ne']
  obtain k' f' pa' pg' where k': "k' < length ?T" "?T ! k' = (f', pa', pg')"
     "\<forall>j < k'. cyclicDist_spec c4 (8 div 2 ^ OFFSET_WIDTH c4) (snd (snd (?T ! j)))
         < cyclicDist_spec c4 (8 div 2 ^ OFFSET_WIDTH c4) pg'"
     and o': "fst (observe (findNewFrame c4 tie_state 8 0)) = f'"
    by force
  have "k' = 0"
  proof (rule ccontr)
    assume "k' \<noteq> 0"
    then have k1: "k' = 1" using k'(1) T by simp
    then have "(f', pa', pg') = (2, 3, 3)" using k'(2) T by simp
    moreover have "cyclicDist_spec c4 (8 div 2 ^ OFFSET_WIDTH c4) (snd (snd (?T ! 0)))
         < cyclicDist_spec c4 (8 div 2 ^ OFFSET_WIDTH c4) pg'" using k'(3)[rule_format, of 0] k1 by simp
    ultimately show False using T d' by simp
  qed
  then have "f' = 1" using k'(2) T by simp
  then have tie: "fst (findNewFrame c4 tie_state 8 0) = 1" using o' by (simp add: observe_def)
  show ?thesis using valid_c4 lt e m L d far e' m' T d' tie by simp
qed

section \<open>The three tiers of findNewFrame\<close>

lemma translateLoop_prefix:
  "k + l = TABLES_DEPTH c \<Longrightarrow>
   translateLoop c va l (translatePrefix c va k s) = translatePrefix c va (TABLES_DEPTH c) s"
proof (induction l arbitrary: k)
  case 0
  then show ?case by simp
next
  case (Suc l)
  have e: "Suc l = TABLES_DEPTH c - k" using Suc.prems by simp
  have "translateStep c va (Suc l) (translatePrefix c va k s) = translatePrefix c va (Suc k) s"
    unfolding e by simp
  moreover have "Suc k + l = TABLES_DEPTH c" using Suc.prems by simp
  ultimately show ?case using Suc.IH[of "Suc k"] by (simp only: translateLoop_Suc)
qed
















end
